theory Spec2Isabelle
  imports Main
begin

section \<open>Data model\<close>

text \<open>
  The orchestrator of \<^verbatim>\<open>pkg/vault/vault.go\<close> talks to two collaborators through
  interfaces: the keystore (\<^verbatim>\<open>kv.Service\<close>) and the vault's HTTP client
  (\<^verbatim>\<open>api.Client\<close>). Neither is part of the repository's sources, so both are
  modelled here as far as the orchestrator can observe them.
\<close>

type_synonym bytes = string

text \<open>
  Modelled from the spec: the struct \<^verbatim>\<open>VaultOptions\<close> is declared outside the
  given sources; the fields are those that \<^verbatim>\<open>vault.go\<close> reads from
  \<^verbatim>\<open>u.config\<close>. The two counters are Go \<^verbatim>\<open>int\<close>s, unbounded here: the
  model describes runs in which no counter reaches \<open>2^63\<close>.
\<close>

record VaultOptions =
  KeyPrefix :: string
  SecretShares :: int
  SecretThreshold :: int
  OverwriteExisting :: bool
  StoreRootToken :: bool

text \<open>The two fields of \<^verbatim>\<open>api.SealStatusResponse\<close> that \<^verbatim>\<open>Unseal\<close> and
  \<^verbatim>\<open>Sealed\<close> read.\<close>

record SealStatusResponse =
  Sealed :: bool
  Progress :: int

text \<open>The two fields of \<^verbatim>\<open>api.InitResponse\<close> that \<^verbatim>\<open>Init\<close> reads.\<close>

record InitResponse =
  Keys :: "string list"
  RootToken :: string

text \<open>An error of the keystore is either a \<^verbatim>\<open>*kv.NotFoundError\<close> or anything else
  (carrying its message).\<close>

datatype kv_error = NotFoundError | KvError string

text \<open>
  One constructor for each error that the orchestrator returns, named as the
  specification names them:
  \<^item> \<open>StatusCheckError\<close>: \<^verbatim>\<open>error checking status: %s\<close> (\<^verbatim>\<open>Sealed\<close>);
  \<^item> \<open>KeyRetrievalError\<close>: \<^verbatim>\<open>unable to get key '%s': %s\<close> (\<^verbatim>\<open>Unseal\<close>);
  \<^item> \<open>UnsealSubmitError\<close>: \<^verbatim>\<open>fail to send unseal request to vault: %s\<close>;
  \<^item> \<open>ProgressResetError\<close>: \<^verbatim>\<open>failed to unseal vault. progress reset to 0\<close>;
  \<^item> \<open>KeyExistsError\<close>: \<^verbatim>\<open>error setting key '%s': it already exists or ...\<close>
    (\<^verbatim>\<open>keyStoreSet\<close>);
  \<^item> \<open>KeyStoreError\<close>: an error of \<^verbatim>\<open>keyStore.Set\<close>, handed on as it is by
    \<^verbatim>\<open>keyStoreSet\<close>;
  \<^item> \<open>InitPrecheckError\<close>: \<^verbatim>\<open>error testing keystore before init: %s\<close>;
  \<^item> \<open>PreexistingKeyError\<close>: \<^verbatim>\<open>error before init: keystore value for '%s' already
    exists or ...\<close>;
  \<^item> \<open>VaultInitError\<close>: \<^verbatim>\<open>error initialising vault: %s\<close>;
  \<^item> \<open>KeyPersistError\<close>: \<^verbatim>\<open>error storing unseal key '%s': %s\<close>;
  \<^item> \<open>RootPersistError\<close>: \<^verbatim>\<open>error storing root token '%s' in key'%s'\<close>;
  \<^item> \<open>AccessCheckError\<close>: \<^verbatim>\<open>read/write access test failed\<close>
    (\<^verbatim>\<open>CheckReadWriteAccess\<close>).
\<close>

datatype error =
    StatusCheckError string
  | KeyRetrievalError string kv_error
  | UnsealSubmitError string
  | ProgressResetError
  | KeyExistsError string
  | KeyStoreError string
  | InitPrecheckError string
  | PreexistingKeyError string
  | VaultInitError string
  | KeyPersistError string error
  | RootPersistError string string
  | AccessCheckError string

section \<open>Key derivation\<close>

text \<open>\<^verbatim>\<open>%d\<close> of \<^verbatim>\<open>fmt.Sprintf\<close>: the decimal digits, most significant first, after
  a minus sign for a negative number.\<close>

definition digit_char :: "nat \<Rightarrow> char" where
  "digit_char d = char_of (48 + d)"

function digits :: "nat \<Rightarrow> string" where
  "digits n = (if n < 10 then [digit_char n] else digits (n div 10) @ [digit_char (n mod 10)])"
  by pat_completeness auto
termination
  by (relation "measure id") auto

declare digits.simps [simp del]

definition fmt_d :: "int \<Rightarrow> string" where
  "fmt_d i = (if i < 0 then CHR ''-'' # digits (nat (- i)) else digits (nat i))"

definition unsealKeyForID :: "VaultOptions \<Rightarrow> int \<Rightarrow> string" where
  "unsealKeyForID cfg i = KeyPrefix cfg @ ''-unseal-'' @ fmt_d i"

definition rootTokenKey :: "VaultOptions \<Rightarrow> string" where
  "rootTokenKey cfg = KeyPrefix cfg @ ''-root''"

definition testKey :: "VaultOptions \<Rightarrow> string" where
  "testKey cfg = KeyPrefix cfg @ ''-test''"

text \<open>Reading a decimal numeral back: the value of a digit string, and of an optionally
  signed one. Used to state that \<open>fmt_d\<close> is the decimal rendering.\<close>

definition digit_val :: "char \<Rightarrow> nat" where
  "digit_val c = of_char c - 48"

definition is_digit :: "char \<Rightarrow> bool" where
  "is_digit c = (48 \<le> (of_char c :: nat) \<and> (of_char c :: nat) \<le> 57)"

fun digits_val :: "nat \<Rightarrow> string \<Rightarrow> nat" where
  "digits_val acc [] = acc"
| "digits_val acc (c # cs) = digits_val (10 * acc + digit_val c) cs"

definition decimal_val :: "string \<Rightarrow> int" where
  "decimal_val s =
     (case s of
        [] \<Rightarrow> 0
      | c # cs \<Rightarrow> if c = CHR ''-'' then - int (digits_val 0 cs) else int (digits_val 0 s))"

section \<open>The collaborators\<close>

text \<open>
  Every call that the orchestrator makes on a collaborator is recorded, with its arguments
  and its outcome, in the order of the calls.
\<close>

datatype event =
    KvGet string "kv_error + bytes"
  | KvSet string bytes "string option"
  | KvTest string "string option"
  | KvCheckWriteAccess "string option"
  | VaultSealStatus "string + SealStatusResponse"
  | VaultUnseal string "string + SealStatusResponse"
  | VaultInit int int "string + InitResponse"

text \<open>
  The state outside the orchestrator: what the keystore holds, and the calls made so far
  (the oldest first).
\<close>

record world =
  kv_data :: "string \<rightharpoonup> bytes"
  trace :: "event list"

text \<open>
  What the orchestrator does not decide: the vault's answers, and the failures of the
  keystore. Each is a function of the moment of the call (the number of calls made before
  it) and of the call's arguments, so that any run of any vault and any keystore backend is
  the run of some \<open>env\<close>.
\<close>

record env =
  get_fault :: "nat \<Rightarrow> string \<Rightarrow> string option"
  set_fault :: "nat \<Rightarrow> string \<Rightarrow> bytes \<Rightarrow> string option"
  test_result :: "nat \<Rightarrow> string \<Rightarrow> string option"
  write_access_result :: "nat \<Rightarrow> string option"
  seal_status_result :: "nat \<Rightarrow> string + SealStatusResponse"
  unseal_result :: "nat \<Rightarrow> string \<Rightarrow> string + SealStatusResponse"
  init_result :: "nat \<Rightarrow> int \<Rightarrow> int \<Rightarrow> string + InitResponse"

definition now :: "world \<Rightarrow> nat" where
  "now w = length (trace w)"

definition record_event :: "event \<Rightarrow> world \<Rightarrow> world" where
  "record_event e w = w\<lparr>trace := trace w @ [e]\<rparr>"

text \<open>
  Modelled from the spec: the interface \<^verbatim>\<open>kv.Service\<close> (package \<^verbatim>\<open>kv\<close> is not
  among the sources). \<^verbatim>\<open>Get\<close> "fails with a distinguishable not-found condition when
  absent", returns the stored value when present, and may fail for any other reason;
  \<^verbatim>\<open>Set\<close> stores the value unless it fails; \<^verbatim>\<open>Test\<close> and
  \<^verbatim>\<open>CheckWriteAccess\<close> are probes that leave the stored values alone.
\<close>

definition keyStore_Get :: "env \<Rightarrow> string \<Rightarrow> world \<Rightarrow> (kv_error + bytes) \<times> world" where
  "keyStore_Get E key w =
     (let r = (case get_fault E (now w) key of
                 Some msg \<Rightarrow> Inl (KvError msg)
               | None \<Rightarrow> (case kv_data w key of
                             None \<Rightarrow> Inl NotFoundError
                           | Some v \<Rightarrow> Inr v))
      in (r, record_event (KvGet key r) w))"

definition keyStore_Set :: "env \<Rightarrow> string \<Rightarrow> bytes \<Rightarrow> world \<Rightarrow> error option \<times> world" where
  "keyStore_Set E key val w =
     (case set_fault E (now w) key val of
        Some msg \<Rightarrow> (Some (KeyStoreError msg), record_event (KvSet key val (Some msg)) w)
      | None \<Rightarrow> (None, record_event (KvSet key val None) (w\<lparr>kv_data := (kv_data w)(key \<mapsto> val)\<rparr>)))"

definition keyStore_Test :: "env \<Rightarrow> string \<Rightarrow> world \<Rightarrow> string option \<times> world" where
  "keyStore_Test E key w =
     (let r = test_result E (now w) key in (r, record_event (KvTest key r) w))"



definition vault_Unseal :: "env \<Rightarrow> string \<Rightarrow> world \<Rightarrow> (string + SealStatusResponse) \<times> world" where
  "vault_Unseal E share w =
     (let r = unseal_result E (now w) share in (r, record_event (VaultUnseal share r) w))"

definition vault_Init :: "env \<Rightarrow> int \<Rightarrow> int \<Rightarrow> world \<Rightarrow> (string + InitResponse) \<times> world" where
  "vault_Init E shares threshold w =
     (let r = init_result E (now w) shares threshold
      in (r, record_event (VaultInit shares threshold r) w))"

section \<open>The orchestrator\<close>


text \<open>
  The loop of \<^verbatim>\<open>Unseal\<close> has no bound of its own: a run that never returns has the
  value \<open>None\<close>. Its counter is an \<open>int\<close>, as the counters of the configuration.
\<close>

partial_function (option)
  unseal_loop :: "env \<Rightarrow> VaultOptions \<Rightarrow> int \<Rightarrow> world \<Rightarrow> (error option \<times> world) option" where
  "unseal_loop E cfg i w =
     (let keyID = unsealKeyForID cfg i;
          (r, w1) = keyStore_Get E keyID w
      in case r of
           Inl err \<Rightarrow> Some (Some (KeyRetrievalError keyID err), w1)
         | Inr k \<Rightarrow>
             (let (r2, w2) = vault_Unseal E k w1
              in case r2 of
                   Inl msg \<Rightarrow> Some (Some (UnsealSubmitError msg), w2)
                 | Inr resp \<Rightarrow>
                     if \<not> Sealed resp then Some (None, w2)
                     else if Progress resp = 0 then Some (Some ProgressResetError, w2)
                     else unseal_loop E cfg (i + 1) w2))"

definition Unseal :: "env \<Rightarrow> VaultOptions \<Rightarrow> world \<Rightarrow> (error option \<times> world) option" where
  "Unseal E cfg w = unseal_loop E cfg 0 w"

definition keyStoreNotFound :: "env \<Rightarrow> string \<Rightarrow> world \<Rightarrow> bool \<times> world" where
  "keyStoreNotFound E key w =
     (let (r, w1) = keyStore_Get E key w
      in (case r of Inl NotFoundError \<Rightarrow> True | _ \<Rightarrow> False, w1))"

definition keyStoreSet ::
  "env \<Rightarrow> VaultOptions \<Rightarrow> string \<Rightarrow> bytes \<Rightarrow> world \<Rightarrow> error option \<times> world" where
  "keyStoreSet E cfg key val w =
     (if OverwriteExisting cfg then keyStore_Set E key val w
      else (let (notFound, w1) = keyStoreNotFound E key w
            in if \<not> notFound then (Some (KeyExistsError key), w1)
               else keyStore_Set E key val w1))"

text \<open>The keys that \<^verbatim>\<open>Init\<close> tests before it asks the vault: the root key, then the
  unseal keys of \<open>0, \<dots>, SecretShares\<close> (\<^verbatim>\<open>i <= u.config.SecretShares\<close>).\<close>

definition precheck_keys :: "VaultOptions \<Rightarrow> string list" where
  "precheck_keys cfg = rootTokenKey cfg # map (unsealKeyForID cfg) [0 .. SecretShares cfg]"

text \<open>\<^verbatim>\<open>for _, key := range keys\<close>: stops at the first key not reported absent.\<close>

fun test_keys :: "env \<Rightarrow> string list \<Rightarrow> world \<Rightarrow> error option \<times> world" where
  "test_keys E [] w = (None, w)"
| "test_keys E (key # keys) w =
     (let (notFound, w1) = keyStoreNotFound E key w
      in if \<not> notFound then (Some (PreexistingKeyError key), w1)
         else test_keys E keys w1)"

text \<open>\<^verbatim>\<open>for i, k := range resp.Keys\<close>, from the index \<open>i\<close> on.\<close>

fun store_keys ::
  "env \<Rightarrow> VaultOptions \<Rightarrow> int \<Rightarrow> string list \<Rightarrow> world \<Rightarrow> error option \<times> world" where
  "store_keys E cfg i [] w = (None, w)"
| "store_keys E cfg i (k # ks) w =
     (let keyID = unsealKeyForID cfg i;
          (err, w1) = keyStoreSet E cfg keyID k w
      in case err of
           Some e \<Rightarrow> (Some (KeyPersistError keyID e), w1)
         | None \<Rightarrow> store_keys E cfg (i + 1) ks w1)"

text \<open>The end of \<^verbatim>\<open>Init\<close> (from \<^verbatim>\<open>for i, k := range resp.Keys\<close> to
  \<^verbatim>\<open>return nil\<close>), once the vault has answered: the shares, then the root token if
  the configuration asks for it. The error of \<^verbatim>\<open>keyStoreSet\<close> for the root token is
  not part of the error returned.\<close>

definition store_response ::
  "env \<Rightarrow> VaultOptions \<Rightarrow> InitResponse \<Rightarrow> world \<Rightarrow> error option \<times> world" where
  "store_response E cfg resp w =
     (let (err, w1) = store_keys E cfg 0 (Keys resp) w
      in case err of
           Some e \<Rightarrow> (Some e, w1)
         | None \<Rightarrow>
             if StoreRootToken cfg then
               (let (err2, w2) = keyStoreSet E cfg (rootTokenKey cfg) (RootToken resp) w1
                in case err2 of
                     Some e \<Rightarrow> (Some (RootPersistError (RootToken resp) (rootTokenKey cfg)), w2)
                   | None \<Rightarrow> (None, w2))
             else (None, w1))"

definition Init :: "env \<Rightarrow> VaultOptions \<Rightarrow> world \<Rightarrow> error option \<times> world" where
  "Init E cfg w =
     (let (terr, w1) = keyStore_Test E (testKey cfg) w
      in case terr of
           Some msg \<Rightarrow> (Some (InitPrecheckError msg), w1)
         | None \<Rightarrow>
             (let (perr, w2) = (if \<not> OverwriteExisting cfg
                                then test_keys E (precheck_keys cfg) w1
                                else (None, w1))
              in case perr of
                   Some e \<Rightarrow> (Some e, w2)
                 | None \<Rightarrow>
                     (let (r, w3) = vault_Init E (SecretShares cfg) (SecretThreshold cfg) w2
                      in case r of
                           Inl msg \<Rightarrow> (Some (VaultInitError msg), w3)
                         | Inr resp \<Rightarrow> store_response E cfg resp w3)))"


text \<open>The calls that an operation added to the trace.\<close>

definition new_events :: "world \<Rightarrow> world \<Rightarrow> event list" where
  "new_events w w' = drop (length (trace w)) (trace w')"

text \<open>What a stretch of the trace shows: the keys read, the keys written (every
  \<^verbatim>\<open>Set\<close> issued, failed or not), the shares submitted to the vault and the
  initialisation requests, each in the order of the calls.\<close>

fun read_keys :: "event list \<Rightarrow> string list" where
  "read_keys [] = []"
| "read_keys (KvGet key r # es) = key # read_keys es"
| "read_keys (e # es) = read_keys es"

fun written_keys :: "event list \<Rightarrow> string list" where
  "written_keys [] = []"
| "written_keys (KvSet key val r # es) = key # written_keys es"
| "written_keys (e # es) = written_keys es"

fun submitted_shares :: "event list \<Rightarrow> string list" where
  "submitted_shares [] = []"
| "submitted_shares (VaultUnseal share r # es) = share # submitted_shares es"
| "submitted_shares (e # es) = submitted_shares es"

fun init_requests :: "event list \<Rightarrow> (int \<times> int) list" where
  "init_requests [] = []"
| "init_requests (VaultInit shares threshold r # es) = (shares, threshold) # init_requests es"
| "init_requests (e # es) = init_requests es"

text \<open>The responses with which the vault answered the initialisation requests of the
  stretch.\<close>

fun init_answers :: "event list \<Rightarrow> InitResponse list" where
  "init_answers [] = []"
| "init_answers (VaultInit shares threshold (Inr resp) # es) = resp # init_answers es"
| "init_answers (e # es) = init_answers es"

text \<open>Every \<^verbatim>\<open>Set\<close> of the stretch comes right after a \<^verbatim>\<open>Get\<close> of the same key
  that reported not-found; \<open>prev\<close> is the call before the stretch, if any.\<close>

fun writes_guarded :: "event option \<Rightarrow> event list \<Rightarrow> bool" where
  "writes_guarded prev [] = True"
| "writes_guarded prev (KvSet key val r # es) =
     (prev = Some (KvGet key (Inl NotFoundError)) \<and> writes_guarded (Some (KvSet key val r)) es)"
| "writes_guarded prev (e # es) = writes_guarded (Some e) es"

text \<open>\<open>write_failed cfg key val e ev\<close>: the error \<open>e\<close> is one that \<open>keyStoreSet\<close> returns
  for the write of \<open>val\<close> under \<open>key\<close>, and \<open>ev\<close> is the call that caused it: the
  \<^verbatim>\<open>Set\<close> that failed, or the \<^verbatim>\<open>Get\<close> that did not report not-found.\<close>

definition write_failed :: "VaultOptions \<Rightarrow> string \<Rightarrow> bytes \<Rightarrow> error \<Rightarrow> event \<Rightarrow> bool" where
  "write_failed cfg key val e ev =
     (case e of
        KeyStoreError msg \<Rightarrow> ev = KvSet key val (Some msg)
      | KeyExistsError key' \<Rightarrow>
          key' = key \<and> \<not> OverwriteExisting cfg \<and>
          (case ev of KvGet key'' r \<Rightarrow> key'' = key \<and> r \<noteq> Inl NotFoundError | _ \<Rightarrow> False)
      | _ \<Rightarrow> False)"

text \<open>\<open>reports_absent E w t key\<close>: a \<^verbatim>\<open>Get\<close> of \<open>key\<close> issued at the moment \<open>t\<close>, when
  the keystore holds what it holds in \<open>w\<close>, reports not-found.\<close>

definition reports_absent :: "env \<Rightarrow> world \<Rightarrow> nat \<Rightarrow> string \<Rightarrow> bool" where
  "reports_absent E w t key = (get_fault E t key = None \<and> kv_data w key = None)"

section \<open>Describing a run of the unseal loop\<close>

text \<open>
  The loop makes two calls in each round, so that round \<open>j\<close> of a run that starts in the
  world \<open>w\<close> reads the keystore at the moment \<open>now w + 2 * j\<close> and submits to the vault at
  the moment after. \<open>yields_shares\<close>: the keystore holds the share \<open>shares ! j\<close> under
  the unseal key of every index \<open>j < length shares\<close> and the read of round \<open>j\<close> does not
  fail. \<open>vault_answers\<close>: the vault answers the submission of round \<open>j\<close> with
  \<open>resps ! j\<close>.
\<close>

definition yields_shares :: "env \<Rightarrow> VaultOptions \<Rightarrow> world \<Rightarrow> string list \<Rightarrow> bool" where
  "yields_shares E cfg w shares =
     (\<forall>j < length shares.
        get_fault E (now w + 2 * j) (unsealKeyForID cfg (int j)) = None \<and>
        kv_data w (unsealKeyForID cfg (int j)) = Some (shares ! j))"

definition vault_answers ::
  "env \<Rightarrow> world \<Rightarrow> string list \<Rightarrow> SealStatusResponse list \<Rightarrow> bool" where
  "vault_answers E w shares resps =
     (length resps = length shares \<and>
      (\<forall>j < length shares. unseal_result E (now w + 2 * j + 1) (shares ! j) = Inr (resps ! j)))"

text \<open>A response after which the loop goes on to the next index.\<close>

definition in_progress :: "SealStatusResponse \<Rightarrow> bool" where
  "in_progress resp = (Sealed resp \<and> Progress resp \<noteq> 0)"

text \<open>The calls of the rounds \<open>i, i + 1, \<dots>\<close> in which the keystore returned \<open>shares\<close> and
  the vault answered \<open>resps\<close>.\<close>

fun unseal_events ::
  "VaultOptions \<Rightarrow> int \<Rightarrow> string list \<Rightarrow> SealStatusResponse list \<Rightarrow> event list" where
  "unseal_events cfg i (s # ss) (r # rs) =
     KvGet (unsealKeyForID cfg i) (Inr s) # VaultUnseal s (Inr r) # unseal_events cfg (i + 1) ss rs"
| "unseal_events cfg i ss rs = []"

section \<open>A concrete scenario\<close>

text \<open>
  The scenario of the specification: the prefix \<open>prod\<close>, five shares, a threshold of
  three, no overwriting, the root token stored. \<open>calm_env\<close> is a keystore without
  failures and a vault that hands out five shares and unseals at the third submission of
  a run that starts with an empty trace.
\<close>

definition prod_cfg :: VaultOptions where
  "prod_cfg = \<lparr>KeyPrefix = ''prod'', SecretShares = 5, SecretThreshold = 3,
                OverwriteExisting = False, StoreRootToken = True\<rparr>"

definition calm_env :: env where
  "calm_env =
     \<lparr>get_fault = (\<lambda>t key. None),
      set_fault = (\<lambda>t key val. None),
      test_result = (\<lambda>t key. None),
      write_access_result = (\<lambda>t. None),
      seal_status_result = (\<lambda>t. Inr \<lparr>Sealed = True, Progress = 0\<rparr>),
      unseal_result = (\<lambda>t share. Inr (if t < 5 then \<lparr>Sealed = True, Progress = int (t div 2) + 1\<rparr>
                                        else \<lparr>Sealed = False, Progress = 0\<rparr>)),
      init_result = (\<lambda>t shares threshold.
                       Inr \<lparr>Keys = [''k0'', ''k1'', ''k2'', ''k3'', ''k4''], RootToken = ''tok''\<rparr>)\<rparr>"

definition fresh_world :: world where
  "fresh_world = \<lparr>kv_data = Map.empty, trace = []\<rparr>"

definition stored_world :: world where
  "stored_world =
     \<lparr>kv_data = [''prod-unseal-0'' \<mapsto> ''k0'', ''prod-unseal-1'' \<mapsto> ''k1'',
                 ''prod-unseal-2'' \<mapsto> ''k2'', ''prod-unseal-3'' \<mapsto> ''k3'',
                 ''prod-unseal-4'' \<mapsto> ''k4'', ''prod-root'' \<mapsto> ''tok''],
      trace = []\<rparr>"

text \<open>A vault that returns two shares, and one that returns seven, whatever the number
  of shares it is asked for.\<close>

definition short_env :: env where
  "short_env =
     calm_env\<lparr>init_result :=
                (\<lambda>t shares threshold. Inr \<lparr>Keys = [''k0'', ''k1''], RootToken = ''tok''\<rparr>)\<rparr>"

definition long_env :: env where
  "long_env =
     calm_env\<lparr>init_result :=
                (\<lambda>t shares threshold.
                   Inr \<lparr>Keys = [''k0'', ''k1'', ''k2'', ''k3'', ''k4'', ''k5'', ''k6''],
                        RootToken = ''tok''\<rparr>)\<rparr>"

text \<open>A vault that resets the progress at the second submission.\<close>

definition reset_env :: env where
  "reset_env =
     calm_env\<lparr>unseal_result :=
                (\<lambda>t share. Inr \<lparr>Sealed = True, Progress = (if t < 3 then 1 else 0)\<rparr>)\<rparr>"

text \<open>A keystore that refuses to write the share of index \<open>2\<close>, one that refuses to
  write the root token, and one whose every lookup fails.\<close>

definition share_fault_env :: env where
  "share_fault_env =
     calm_env\<lparr>set_fault :=
                (\<lambda>t key val. if key = ''prod-unseal-2'' then Some ''denied'' else None)\<rparr>"

definition root_fault_env :: env where
  "root_fault_env =
     calm_env\<lparr>set_fault :=
                (\<lambda>t key val. if key = ''prod-root'' then Some ''denied'' else None)\<rparr>"


text \<open>A keystore that holds nothing but a value under the unseal key of index \<open>5\<close>, which
  an initialisation with five shares never writes.\<close>

definition leftover_world :: world where
  "leftover_world = \<lparr>kv_data = [''prod-unseal-5'' \<mapsto> ''old''], trace = []\<rparr>"

text \<open>The response of the vault of \<open>calm_env\<close>, and the worlds that \<open>Init\<close> goes through
  when it starts in the empty keystore with the scenario's configuration: after the probe
  of the keystore, after the test for existing keys, and after the vault's answer.\<close>

definition calm_resp :: InitResponse where
  "calm_resp = \<lparr>Keys = [''k0'', ''k1'', ''k2'', ''k3'', ''k4''], RootToken = ''tok''\<rparr>"

definition probed_world :: "env \<Rightarrow> world" where
  "probed_world E = snd (keyStore_Test E (testKey prod_cfg) fresh_world)"

definition tested_world :: "env \<Rightarrow> world" where
  "tested_world E = snd (test_keys E (precheck_keys prod_cfg) (probed_world E))"

definition answered_world :: "env \<Rightarrow> world" where
  "answered_world E =
     snd (vault_Init E (SecretShares prod_cfg) (SecretThreshold prod_cfg) (tested_world E))"

section \<open>Key derivation: properties\<close>

lemma digit_val_digit_char: "d < 10 \<Longrightarrow> digit_val (digit_char d) = d"
  by (simp add: digit_val_def digit_char_def)

lemma is_digit_digit_char: "d < 10 \<Longrightarrow> is_digit (digit_char d)"
  by (simp add: is_digit_def digit_char_def)

lemma digits_val_append: "digits_val acc (xs @ ys) = digits_val (digits_val acc xs) ys"
  by (induction xs arbitrary: acc) auto

lemma digits_val_digits: "digits_val 0 (digits n) = n"
proof (induction n rule: digits.induct)
  case (1 n)
  show ?case
  proof (cases "n < 10")
    case True
    then show ?thesis
      by (subst digits.simps) (simp add: digit_val_digit_char)
  next
    case False
    with 1 have "digits_val 0 (digits (n div 10)) = n div 10"
      by simp
    with False show ?thesis
      by (subst digits.simps) (simp add: digits_val_append digit_val_digit_char)
  qed
qed

lemma digits_all_digit: "\<forall>c \<in> set (digits n). is_digit c"
proof (induction n rule: digits.induct)
  case (1 n)
  show ?case
  proof (cases "n < 10")
    case True
    then show ?thesis
      by (subst digits.simps) (simp add: is_digit_digit_char)
  next
    case False
    with 1 have "\<forall>c \<in> set (digits (n div 10)). is_digit c"
      by simp
    with False show ?thesis
      by (subst digits.simps) (simp add: is_digit_digit_char)
  qed
qed

lemma digits_not_Nil: "digits n \<noteq> []"
  by (subst digits.simps) simp

lemma minus_not_digit: "\<not> is_digit CHR ''-''"
  by (simp add: is_digit_def)

lemma hd_digits_not_minus: "digits n = c # cs \<Longrightarrow> c \<noteq> CHR ''-''"
  using digits_all_digit [of n] minus_not_digit by auto

lemma decimal_val_fmt_d: "decimal_val (fmt_d i) = i"
proof (cases "i < 0")
  case True
  then show ?thesis
    by (simp add: decimal_val_def fmt_d_def digits_val_digits)
next
  case False
  obtain c cs where eq: "digits (nat i) = c # cs"
    using digits_not_Nil [of "nat i"] by (cases "digits (nat i)") auto
  have "c \<noteq> CHR ''-''"
    using eq by (rule hd_digits_not_minus)
  moreover have "digits_val 0 (c # cs) = nat i"
    using digits_val_digits [of "nat i"] eq by simp
  ultimately show ?thesis
    using False eq by (simp add: decimal_val_def fmt_d_def)
qed

lemma fmt_d_inj: "fmt_d i = fmt_d j \<Longrightarrow> i = j"
  by (metis decimal_val_fmt_d)

lemma unsealKeyForID_inj: "unsealKeyForID cfg i = unsealKeyForID cfg j \<longleftrightarrow> i = j"
  by (auto simp: unsealKeyForID_def dest: fmt_d_inj)

lemma rootTokenKey_not_unseal: "rootTokenKey cfg \<noteq> unsealKeyForID cfg i"
  by (simp add: rootTokenKey_def unsealKeyForID_def)

lemma testKey_not_unseal: "testKey cfg \<noteq> unsealKeyForID cfg i"
  by (simp add: testKey_def unsealKeyForID_def)

lemma testKey_not_root: "testKey cfg \<noteq> rootTokenKey cfg"
  by (simp add: testKey_def rootTokenKey_def)

section \<open>Traces\<close>

lemma now_record_event [simp]: "now (record_event e w) = Suc (now w)"
  by (simp add: now_def record_event_def)

lemma trace_record_event [simp]: "trace (record_event e w) = trace w @ [e]"
  by (simp add: record_event_def)

lemma kv_data_record_event [simp]: "kv_data (record_event e w) = kv_data w"
  by (simp add: record_event_def)

lemma new_events_append: "trace w' = trace w @ evs \<Longrightarrow> new_events w w' = evs"
  by (simp add: new_events_def)

lemma read_keys_append [simp]: "read_keys (xs @ ys) = read_keys xs @ read_keys ys"
  by (induction xs rule: read_keys.induct) auto

lemma written_keys_append [simp]: "written_keys (xs @ ys) = written_keys xs @ written_keys ys"
  by (induction xs rule: written_keys.induct) auto

lemma submitted_shares_append [simp]:
  "submitted_shares (xs @ ys) = submitted_shares xs @ submitted_shares ys"
  by (induction xs rule: submitted_shares.induct) auto

lemma init_requests_append [simp]:
  "init_requests (xs @ ys) = init_requests xs @ init_requests ys"
  by (induction xs rule: init_requests.induct) auto

section \<open>The collaborators' calls\<close>

lemma keyStore_Get_world:
  "keyStore_Get E key w = (r, w') \<Longrightarrow> w' = record_event (KvGet key r) w"
  by (auto simp: keyStore_Get_def Let_def)

lemma keyStore_Get_Inr:
  "get_fault E (now w) key = None \<Longrightarrow> kv_data w key = Some v \<Longrightarrow>
   keyStore_Get E key w = (Inr v, record_event (KvGet key (Inr v)) w)"
  by (simp add: keyStore_Get_def Let_def)


lemma vault_Unseal_eq:
  "unseal_result E (now w) share = r \<Longrightarrow>
   vault_Unseal E share w = (r, record_event (VaultUnseal share r) w)"
  by (auto simp: vault_Unseal_def Let_def)

section \<open>The unseal loop\<close>

lemma unseal_loop_get_fails:
  assumes "keyStore_Get E (unsealKeyForID cfg i) w = (Inl err, w1)"
  shows "unseal_loop E cfg i w = Some (Some (KeyRetrievalError (unsealKeyForID cfg i) err), w1)"
  by (subst unseal_loop.simps) (simp add: assms)

lemma unseal_loop_answer:
  assumes "get_fault E (now w) (unsealKeyForID cfg i) = None"
    and "kv_data w (unsealKeyForID cfg i) = Some s"
    and "unseal_result E (Suc (now w)) s = Inr resp"
  shows "unseal_loop E cfg i w =
     (let w2 = w\<lparr>trace := trace w @ [KvGet (unsealKeyForID cfg i) (Inr s), VaultUnseal s (Inr resp)]\<rparr>
      in if \<not> Sealed resp then Some (None, w2)
         else if Progress resp = 0 then Some (Some ProgressResetError, w2)
         else unseal_loop E cfg (i + 1) w2)"
proof -
  let ?w1 = "record_event (KvGet (unsealKeyForID cfg i) (Inr s)) w"
  have g: "keyStore_Get E (unsealKeyForID cfg i) w = (Inr s, ?w1)"
    using assms(1,2) by (rule keyStore_Get_Inr)
  have u: "vault_Unseal E s ?w1 = (Inr resp, record_event (VaultUnseal s (Inr resp)) ?w1)"
    using assms(3) by (simp add: vault_Unseal_eq)
  have w2: "record_event (VaultUnseal s (Inr resp)) ?w1 =
      w\<lparr>trace := trace w @ [KvGet (unsealKeyForID cfg i) (Inr s), VaultUnseal s (Inr resp)]\<rparr>"
    by (simp add: record_event_def)
  show ?thesis
    by (subst unseal_loop.simps) (simp add: g u w2 Let_def)
qed

lemma now_trace_update [simp]: "now (w\<lparr>trace := t\<rparr>) = length t"
  by (simp add: now_def)

lemma unseal_loop_rounds:
  assumes "length resps = length shares"
    and "\<forall>j < length shares.
           get_fault E (now w + 2 * j) (unsealKeyForID cfg (i + int j)) = None \<and>
           kv_data w (unsealKeyForID cfg (i + int j)) = Some (shares ! j) \<and>
           unseal_result E (now w + 2 * j + 1) (shares ! j) = Inr (resps ! j) \<and>
           in_progress (resps ! j)"
  shows "unseal_loop E cfg i w =
         unseal_loop E cfg (i + int (length shares))
           (w\<lparr>trace := trace w @ unseal_events cfg i shares resps\<rparr>)"
  using assms
proof (induction shares arbitrary: resps i w)
  case Nil
  then show ?case by simp
next
  case (Cons s ss)
  then obtain r rs where resps: "resps = r # rs" and len: "length rs = length ss"
    by (cases resps) auto
  let ?w2 = "w\<lparr>trace := trace w @ [KvGet (unsealKeyForID cfg i) (Inr s), VaultUnseal s (Inr r)]\<rparr>"
  from Cons.prems(2) [rule_format, of 0]
  have h0: "get_fault E (now w) (unsealKeyForID cfg i) = None"
    "kv_data w (unsealKeyForID cfg i) = Some s"
    "unseal_result E (Suc (now w)) s = Inr r" "in_progress r"
    by (simp_all add: resps)
  have step: "unseal_loop E cfg i w = unseal_loop E cfg (i + 1) ?w2"
    using unseal_loop_answer [OF h0(1,2,3)] h0(4) by (simp add: in_progress_def Let_def)
  have now2: "now ?w2 = now w + 2"
    by (simp add: now_def)
  have hyp: "\<forall>j < length ss.
           get_fault E (now ?w2 + 2 * j) (unsealKeyForID cfg (i + 1 + int j)) = None \<and>
           kv_data ?w2 (unsealKeyForID cfg (i + 1 + int j)) = Some (ss ! j) \<and>
           unseal_result E (now ?w2 + 2 * j + 1) (ss ! j) = Inr (rs ! j) \<and>
           in_progress (rs ! j)"
  proof (intro allI impI)
    fix j assume "j < length ss"
    then have "Suc j < length (s # ss)" by simp
    from Cons.prems(2) [rule_format, OF this]
    show "get_fault E (now ?w2 + 2 * j) (unsealKeyForID cfg (i + 1 + int j)) = None \<and>
           kv_data ?w2 (unsealKeyForID cfg (i + 1 + int j)) = Some (ss ! j) \<and>
           unseal_result E (now ?w2 + 2 * j + 1) (ss ! j) = Inr (rs ! j) \<and>
           in_progress (rs ! j)"
      unfolding now2 by (simp add: resps add.commute add.left_commute)
  qed
  have "unseal_loop E cfg (i + 1) ?w2 =
        unseal_loop E cfg (i + 1 + int (length ss))
          (?w2\<lparr>trace := trace ?w2 @ unseal_events cfg (i + 1) ss rs\<rparr>)"
    using len hyp by (rule Cons.IH)
  with step show ?case
    by (simp add: resps ac_simps)
qed

lemma unseal_events_snoc:
  "length rs = length ss \<Longrightarrow>
   unseal_events cfg i (ss @ [s]) (rs @ [r]) =
   unseal_events cfg i ss rs @
     [KvGet (unsealKeyForID cfg (i + int (length ss))) (Inr s), VaultUnseal s (Inr r)]"
proof (induction ss arbitrary: rs i)
  case Nil
  then show ?case by simp
next
  case (Cons a ss)
  then obtain b rs' where "rs = b # rs'" "length rs' = length ss"
    by (cases rs) auto
  with Cons.IH [of rs' "i + 1"] show ?case
    by (simp add: ac_simps)
qed

lemma read_keys_unseal_events:
  "length rs = length ss \<Longrightarrow>
   read_keys (unseal_events cfg i ss rs) =
   map (\<lambda>j. unsealKeyForID cfg (i + int j)) [0 ..< length ss]"
proof (induction ss arbitrary: rs rule: rev_induct)
  case Nil
  then show ?case by simp
next
  case (snoc s ss)
  then obtain r rs' where rs: "rs = rs' @ [r]" and len: "length rs' = length ss"
    by (cases rs rule: rev_cases) auto
  show ?case
    using snoc.IH [OF len] by (simp add: rs unseal_events_snoc [OF len])
qed

lemma submitted_shares_unseal_events:
  "length rs = length ss \<Longrightarrow> submitted_shares (unseal_events cfg i ss rs) = ss"
proof (induction ss arbitrary: rs rule: rev_induct)
  case Nil
  then show ?case by simp
next
  case (snoc s ss)
  then obtain r rs' where rs: "rs = rs' @ [r]" and len: "length rs' = length ss"
    by (cases rs rule: rev_cases) auto
  show ?case
    using snoc.IH [OF len] by (simp add: rs unseal_events_snoc [OF len])
qed

lemma length_unseal_events:
  "length rs = length ss \<Longrightarrow> length (unseal_events cfg i ss rs) = 2 * length ss"
proof (induction ss arbitrary: rs rule: rev_induct)
  case Nil
  then show ?case by simp
next
  case (snoc s ss)
  then obtain r rs' where rs: "rs = rs' @ [r]" and len: "length rs' = length ss"
    by (cases rs rule: rev_cases) auto
  show ?case
    using snoc.IH [OF len] by (simp add: rs unseal_events_snoc [OF len])
qed

text \<open>The run of \<open>Unseal\<close> up to the answer of the last of \<open>length shares\<close> rounds.\<close>

lemma Unseal_last_answer:
  assumes ne: "shares \<noteq> []"
    and ys: "yields_shares E cfg w shares"
    and va: "vault_answers E w shares resps"
    and prog: "\<forall>j < length shares - 1. in_progress (resps ! j)"
  shows "Unseal E cfg w =
     (let w' = w\<lparr>trace := trace w @ unseal_events cfg 0 shares resps\<rparr>
      in if \<not> Sealed (last resps) then Some (None, w')
         else if Progress (last resps) = 0 then Some (Some ProgressResetError, w')
         else unseal_loop E cfg (int (length shares)) w')"
proof -
  from ne obtain ss s where shares: "shares = ss @ [s]"
    by (cases shares rule: rev_cases) auto
  from va have lenr: "length resps = length shares"
    by (simp add: vault_answers_def)
  then obtain rs r where resps: "resps = rs @ [r]" and len: "length rs = length ss"
    using shares by (cases resps rule: rev_cases) auto
  let ?k = "length ss"
  let ?wk = "w\<lparr>trace := trace w @ unseal_events cfg 0 ss rs\<rparr>"
  have rounds: "\<forall>j < length ss.
           get_fault E (now w + 2 * j) (unsealKeyForID cfg (0 + int j)) = None \<and>
           kv_data w (unsealKeyForID cfg (0 + int j)) = Some (ss ! j) \<and>
           unseal_result E (now w + 2 * j + 1) (ss ! j) = Inr (rs ! j) \<and>
           in_progress (rs ! j)"
  proof (intro allI impI)
    fix j assume j: "j < length ss"
    then have j': "j < length shares" "j < length shares - 1"
      by (simp_all add: shares)
    from ys j'(1) have "get_fault E (now w + 2 * j) (unsealKeyForID cfg (int j)) = None"
      "kv_data w (unsealKeyForID cfg (int j)) = Some (shares ! j)"
      by (simp_all add: yields_shares_def)
    moreover from va j'(1)
    have "unseal_result E (now w + 2 * j + 1) (shares ! j) = Inr (resps ! j)"
      by (simp add: vault_answers_def)
    moreover from prog j'(2) have "in_progress (resps ! j)"
      by simp
    ultimately show "get_fault E (now w + 2 * j) (unsealKeyForID cfg (0 + int j)) = None \<and>
           kv_data w (unsealKeyForID cfg (0 + int j)) = Some (ss ! j) \<and>
           unseal_result E (now w + 2 * j + 1) (ss ! j) = Inr (rs ! j) \<and>
           in_progress (rs ! j)"
      using j len by (simp add: shares resps nth_append)
  qed
  have before: "unseal_loop E cfg 0 w = unseal_loop E cfg (0 + int ?k) ?wk"
    using len rounds by (rule unseal_loop_rounds)
  have nowk: "now ?wk = now w + 2 * ?k"
    using length_unseal_events [OF len, of cfg 0] by (simp add: now_def)
  have last_round: "?k < length shares"
    by (simp add: shares)
  from ys last_round
  have g: "get_fault E (now ?wk) (unsealKeyForID cfg (0 + int ?k)) = None"
    and d: "kv_data ?wk (unsealKeyForID cfg (0 + int ?k)) = Some s"
    unfolding nowk by (simp_all add: yields_shares_def shares)
  from va last_round
  have "unseal_result E (now w + 2 * ?k + 1) (shares ! ?k) = Inr (resps ! ?k)"
    by (simp add: vault_answers_def)
  then have u: "unseal_result E (Suc (now ?wk)) s = Inr r"
    unfolding nowk using len by (simp add: shares resps nth_append)
  have "unseal_loop E cfg (0 + int ?k) ?wk =
     (let w2 = ?wk\<lparr>trace := trace ?wk @
                 [KvGet (unsealKeyForID cfg (0 + int ?k)) (Inr s), VaultUnseal s (Inr r)]\<rparr>
      in if \<not> Sealed r then Some (None, w2)
         else if Progress r = 0 then Some (Some ProgressResetError, w2)
         else unseal_loop E cfg (0 + int ?k + 1) w2)"
    using g d u by (rule unseal_loop_answer)
  with before show ?thesis
    by (simp add: Unseal_def shares resps unseal_events_snoc [OF len] Let_def ac_simps)
qed

section \<open>The concrete scenario: derived keys\<close>

lemma prod_keys:
  "unsealKeyForID prod_cfg 0 = ''prod-unseal-0''"
  "unsealKeyForID prod_cfg 1 = ''prod-unseal-1''"
  "unsealKeyForID prod_cfg 2 = ''prod-unseal-2''"
  "unsealKeyForID prod_cfg 3 = ''prod-unseal-3''"
  "unsealKeyForID prod_cfg 4 = ''prod-unseal-4''"
  "unsealKeyForID prod_cfg 5 = ''prod-unseal-5''"
  "rootTokenKey prod_cfg = ''prod-root''"
  "testKey prod_cfg = ''prod-test''"
  by code_simp+

lemma decimal_12: "fmt_d 12 = ''12''" "decimal_val ''12'' = 12"
  by code_simp+

section \<open>Growing traces\<close>

lemma grows_trans:
  assumes "trace w1 = trace w @ new_events w w1"
    and "trace w2 = trace w1 @ new_events w1 w2"
  shows "trace w2 = trace w @ new_events w w2"
    and "new_events w w2 = new_events w w1 @ new_events w1 w2"
proof -
  have "trace w2 = trace w @ (new_events w w1 @ new_events w1 w2)"
    using assms by simp
  then show "new_events w w2 = new_events w w1 @ new_events w1 w2"
    by (rule new_events_append)
  then show "trace w2 = trace w @ new_events w w2"
    using assms by simp
qed

lemma grows_record_event:
  "trace (record_event e w) = trace w @ new_events w (record_event e w)"
  "new_events w (record_event e w) = [e]"
  by (simp_all add: new_events_def)



section \<open>The keystore calls of Init\<close>

lemma keyStore_Set_cases:
  assumes "keyStore_Set E key val w = (err, w')"
  obtains (stored) "err = None"
      "w' = record_event (KvSet key val None) (w\<lparr>kv_data := (kv_data w)(key \<mapsto> val)\<rparr>)"
  | (failed) msg where "err = Some (KeyStoreError msg)"
      "w' = record_event (KvSet key val (Some msg)) w"
  using assms by (auto simp: keyStore_Set_def split: option.splits)

lemma keyStoreNotFound_cases:
  assumes "keyStoreNotFound E key w = (nf, w1)"
  obtains (absent) "nf" "get_fault E (now w) key = None" "kv_data w key = None"
      "w1 = record_event (KvGet key (Inl NotFoundError)) w"
  | (other) r where "\<not> nf" "r \<noteq> Inl NotFoundError"
      "get_fault E (now w) key \<noteq> None \<or> kv_data w key \<noteq> None"
      "w1 = record_event (KvGet key r) w"
  using assms
  by (auto simp: keyStoreNotFound_def keyStore_Get_def Let_def
      split: option.splits sum.splits kv_error.splits)

lemma keyStoreNotFound_absent:
  "get_fault E (now w) key = None \<Longrightarrow> kv_data w key = None \<Longrightarrow>
   keyStoreNotFound E key w = (True, record_event (KvGet key (Inl NotFoundError)) w)"
  by (simp add: keyStoreNotFound_def keyStore_Get_def Let_def)

lemma keyStoreNotFound_other:
  "get_fault E (now w) key \<noteq> None \<or> kv_data w key \<noteq> None \<Longrightarrow>
   \<exists>r. r \<noteq> Inl NotFoundError \<and>
       keyStoreNotFound E key w = (False, record_event (KvGet key r) w)"
  by (auto simp: keyStoreNotFound_def keyStore_Get_def Let_def split: option.splits)

text \<open>The three ways in which \<open>keyStoreSet\<close> ends.\<close>

lemma keyStoreSet_cases:
  assumes "keyStoreSet E cfg key val w = (err, w')"
  obtains (stored) "err = None" "kv_data w' = (kv_data w)(key \<mapsto> val)"
      "\<not> OverwriteExisting cfg \<longrightarrow> kv_data w key = None"
      "trace w' = trace w @
         (if OverwriteExisting cfg then [] else [KvGet key (Inl NotFoundError)]) @
         [KvSet key val None]"
  | (failed) msg where "err = Some (KeyStoreError msg)" "kv_data w' = kv_data w"
      "trace w' = trace w @
         (if OverwriteExisting cfg then [] else [KvGet key (Inl NotFoundError)]) @
         [KvSet key val (Some msg)]"
  | (refused) r where "\<not> OverwriteExisting cfg" "r \<noteq> Inl NotFoundError"
      "err = Some (KeyExistsError key)" "kv_data w' = kv_data w"
      "trace w' = trace w @ [KvGet key r]"
proof (cases "OverwriteExisting cfg")
  case True
  with assms have "keyStore_Set E key val w = (err, w')"
    by (simp add: keyStoreSet_def)
  then show ?thesis
  proof (cases rule: keyStore_Set_cases)
    case stored
    with True show ?thesis by (intro that(1)) simp_all
  next
    case (failed msg)
    with True show ?thesis by (intro that(2)) simp_all
  qed
next
  case False
  obtain nf w1 where nf: "keyStoreNotFound E key w = (nf, w1)"
    by (cases "keyStoreNotFound E key w")
  from nf show ?thesis
  proof (cases rule: keyStoreNotFound_cases)
    case absent
    with assms False nf have "keyStore_Set E key val w1 = (err, w')"
      by (simp add: keyStoreSet_def)
    then show ?thesis
    proof (cases rule: keyStore_Set_cases)
      case stored
      with False absent show ?thesis by (intro that(1)) simp_all
    next
      case (failed msg)
      with False absent show ?thesis by (intro that(2)) simp_all
    qed
  next
    case (other r)
    with assms False nf have "err = Some (KeyExistsError key)" "w' = w1"
      by (simp_all add: keyStoreSet_def)
    with False other show ?thesis by (intro that(3)) simp_all
  qed
qed

text \<open>What every run of \<open>keyStoreSet\<close> has in common.\<close>

lemma keyStoreSet_effect:
  assumes run: "keyStoreSet E cfg key val w = (err, w')"
  shows keyStoreSet_grows: "trace w' = trace w @ new_events w w'"
    and keyStoreSet_written: "set (written_keys (new_events w w')) \<subseteq> {key}"
    and keyStoreSet_no_init: "init_requests (new_events w w') = []"
    and keyStoreSet_guarded: "\<not> OverwriteExisting cfg \<Longrightarrow> writes_guarded p (new_events w w')"
    and keyStoreSet_map_le: "\<not> OverwriteExisting cfg \<Longrightarrow> kv_data w \<subseteq>\<^sub>m kv_data w'"
    and keyStoreSet_other: "k \<noteq> key \<Longrightarrow> kv_data w' k = kv_data w k"
    and keyStoreSet_stored: "err = None \<Longrightarrow> kv_data w' key = Some val"
    and keyStoreSet_written_ok: "err = None \<Longrightarrow> written_keys (new_events w w') = [key]"
    and keyStoreSet_failed: "err \<noteq> None \<Longrightarrow> kv_data w' = kv_data w"
proof -
  show "trace w' = trace w @ new_events w w'"
    using run by (cases rule: keyStoreSet_cases) (simp_all add: new_events_def)
  show "set (written_keys (new_events w w')) \<subseteq> {key}"
    using run by (cases rule: keyStoreSet_cases) (simp_all add: new_events_def)
  show "init_requests (new_events w w') = []"
    using run by (cases rule: keyStoreSet_cases) (simp_all add: new_events_def)
  show "writes_guarded p (new_events w w')" if "\<not> OverwriteExisting cfg"
    using run that by (cases rule: keyStoreSet_cases) (simp_all add: new_events_def)
  show "kv_data w \<subseteq>\<^sub>m kv_data w'" if "\<not> OverwriteExisting cfg"
    using run that by (cases rule: keyStoreSet_cases) (auto simp: map_le_def)
  show "kv_data w' k = kv_data w k" if "k \<noteq> key"
    using run that by (cases rule: keyStoreSet_cases) simp_all
  show "kv_data w' key = Some val" if "err = None"
    using run that by (cases rule: keyStoreSet_cases) simp_all
  show "written_keys (new_events w w') = [key]" if "err = None"
    using run that by (cases rule: keyStoreSet_cases) (simp_all add: new_events_def)
  show "kv_data w' = kv_data w" if "err \<noteq> None"
    using run that by (cases rule: keyStoreSet_cases) simp_all
qed

section \<open>Storing the shares\<close>

lemma store_keys_Cons_cases:
  assumes "store_keys E cfg i (k # ks) w = (err, w')"
  obtains (stop) e where
      "keyStoreSet E cfg (unsealKeyForID cfg i) k w = (Some e, w')"
      "err = Some (KeyPersistError (unsealKeyForID cfg i) e)"
  | (go) w1 where
      "keyStoreSet E cfg (unsealKeyForID cfg i) k w = (None, w1)"
      "store_keys E cfg (i + 1) ks w1 = (err, w')"
  using assms by (auto simp: Let_def split: prod.splits option.splits)

lemma store_keys_grows:
  "store_keys E cfg i ks w = (err, w') \<Longrightarrow> trace w' = trace w @ new_events w w'"
proof (induction ks arbitrary: i w)
  case Nil
  then show ?case by (simp add: new_events_def)
next
  case (Cons k ks)
  from Cons.prems show ?case
  proof (cases rule: store_keys_Cons_cases)
    case (stop e)
    then show ?thesis by (simp add: keyStoreSet_grows)
  next
    case (go w1)
    show ?thesis
      using keyStoreSet_grows [OF go(1)] Cons.IH [OF go(2)] by (rule grows_trans)
  qed
qed

lemma store_keys_new_events_Cons:
  assumes "keyStoreSet E cfg (unsealKeyForID cfg i) k w = (None, w1)"
    and "store_keys E cfg (i + 1) ks w1 = (err, w')"
  shows "new_events w w' = new_events w w1 @ new_events w1 w'"
  using keyStoreSet_grows [OF assms(1)] store_keys_grows [OF assms(2)] by (rule grows_trans)

lemma store_keys_written:
  "store_keys E cfg i ks w = (err, w') \<Longrightarrow>
   set (written_keys (new_events w w')) \<subseteq> (\<lambda>j. unsealKeyForID cfg (i + int j)) ` {..< length ks}"
proof (induction ks arbitrary: i w)
  case Nil
  then show ?case by (simp add: new_events_def)
next
  case (Cons k ks)
  have zero: "unsealKeyForID cfg i \<in> (\<lambda>j. unsealKeyForID cfg (i + int j)) ` {..< length (k # ks)}"
    by (rule image_eqI [where x = 0]) simp_all
  from Cons.prems show ?case
  proof (cases rule: store_keys_Cons_cases)
    case (stop e)
    then show ?thesis
      using keyStoreSet_written [OF stop(1)] zero by auto
  next
    case (go w1)
    have "(\<lambda>j. unsealKeyForID cfg (i + 1 + int j)) ` {..< length ks}
          \<subseteq> (\<lambda>j. unsealKeyForID cfg (i + int j)) ` {..< length (k # ks)}"
    proof
      fix x assume "x \<in> (\<lambda>j. unsealKeyForID cfg (i + 1 + int j)) ` {..< length ks}"
      then obtain j where "j < length ks" "x = unsealKeyForID cfg (i + 1 + int j)"
        by auto
      then show "x \<in> (\<lambda>j. unsealKeyForID cfg (i + int j)) ` {..< length (k # ks)}"
        by (intro image_eqI [where x = "Suc j"]) (simp_all add: ac_simps)
    qed
    with Cons.IH [OF go(2)] keyStoreSet_written [OF go(1)] zero show ?thesis
      unfolding store_keys_new_events_Cons [OF go] by auto
  qed
qed

lemma store_keys_no_init:
  "store_keys E cfg i ks w = (err, w') \<Longrightarrow> init_requests (new_events w w') = []"
proof (induction ks arbitrary: i w)
  case Nil
  then show ?case by (simp add: new_events_def)
next
  case (Cons k ks)
  from Cons.prems show ?case
  proof (cases rule: store_keys_Cons_cases)
    case (stop e)
    then show ?thesis by (simp add: keyStoreSet_no_init)
  next
    case (go w1)
    with Cons.IH [OF go(2)] keyStoreSet_no_init [OF go(1)] show ?thesis
      unfolding store_keys_new_events_Cons [OF go] by simp
  qed
qed



lemma store_keys_other:
  "store_keys E cfg i ks w = (err, w') \<Longrightarrow>
   \<forall>j < length ks. key \<noteq> unsealKeyForID cfg (i + int j) \<Longrightarrow>
   kv_data w' key = kv_data w key"
proof (induction ks arbitrary: i w)
  case Nil
  then show ?case by simp
next
  case (Cons k ks)
  from Cons.prems(2) have first: "key \<noteq> unsealKeyForID cfg i"
    by auto
  have rest: "\<forall>j < length ks. key \<noteq> unsealKeyForID cfg (i + 1 + int j)"
  proof (intro allI impI)
    fix j assume "j < length ks"
    then have "Suc j < length (k # ks)" by simp
    with Cons.prems(2) have "key \<noteq> unsealKeyForID cfg (i + int (Suc j))" by blast
    then show "key \<noteq> unsealKeyForID cfg (i + 1 + int j)" by (simp add: ac_simps)
  qed
  from Cons.prems(1) show ?case
  proof (cases rule: store_keys_Cons_cases)
    case (stop e)
    then show ?thesis using first by (simp add: keyStoreSet_other)
  next
    case (go w1)
    show ?thesis
      using keyStoreSet_other [OF go(1) first] Cons.IH [OF go(2) rest] by simp
  qed
qed

lemma store_keys_earlier:
  assumes "store_keys E cfg (i + 1) ks w1 = (err, w')"
  shows "kv_data w' (unsealKeyForID cfg i) = kv_data w1 (unsealKeyForID cfg i)"
  using assms by (rule store_keys_other) (simp add: unsealKeyForID_inj)

lemma store_keys_ok_data:
  "store_keys E cfg i ks w = (None, w') \<Longrightarrow> j < length ks \<Longrightarrow>
   kv_data w' (unsealKeyForID cfg (i + int j)) = Some (ks ! j)"
proof (induction ks arbitrary: i w j)
  case Nil
  then show ?case by simp
next
  case (Cons k ks)
  from Cons.prems(1) show ?case
  proof (cases rule: store_keys_Cons_cases)
    case (stop e)
    then show ?thesis by simp
  next
    case (go w1)
    show ?thesis
    proof (cases j)
      case 0
      then show ?thesis
        using store_keys_earlier [OF go(2)] keyStoreSet_stored [OF go(1)] by simp
    next
      case (Suc j')
      with Cons.prems(2) have "j' < length ks" by simp
      from Cons.IH [OF go(2) this] show ?thesis
        by (simp add: Suc ac_simps)
    qed
  qed
qed

lemma store_keys_ok_written:
  "store_keys E cfg i ks w = (None, w') \<Longrightarrow>
   written_keys (new_events w w') = map (\<lambda>j. unsealKeyForID cfg (i + int j)) [0 ..< length ks]"
proof (induction ks arbitrary: i w)
  case Nil
  then show ?case by (simp add: new_events_def)
next
  case (Cons k ks)
  from Cons.prems(1) show ?case
  proof (cases rule: store_keys_Cons_cases)
    case (stop e)
    then show ?thesis by simp
  next
    case (go w1)
    have "map (\<lambda>j. unsealKeyForID cfg (i + int j)) [0 ..< length (k # ks)] =
          unsealKeyForID cfg i # map (\<lambda>j. unsealKeyForID cfg (i + 1 + int j)) [0 ..< length ks]"
      by (simp add: upt_conv_Cons map_Suc_upt [symmetric] ac_simps del: upt_Suc)
    then show ?thesis
      unfolding store_keys_new_events_Cons [OF go]
      using keyStoreSet_written_ok [OF go(1)] Cons.IH [OF go(2)] by simp
  qed
qed

text \<open>A run of \<open>store_keys\<close> that fails: the index at which it stops, what the keystore
  holds then, and the call that failed.\<close>

lemma store_keys_fail:
  "store_keys E cfg i ks w = (Some e, w') \<Longrightarrow>
   \<exists>n e'. n < length ks \<and> e = KeyPersistError (unsealKeyForID cfg (i + int n)) e' \<and>
     (\<forall>j < n. kv_data w' (unsealKeyForID cfg (i + int j)) = Some (ks ! j)) \<and>
     ((\<exists>msg. e' = KeyStoreError msg \<and>
          last (trace w') = KvSet (unsealKeyForID cfg (i + int n)) (ks ! n) (Some msg)) \<or>
      (\<exists>r. e' = KeyExistsError (unsealKeyForID cfg (i + int n)) \<and> r \<noteq> Inl NotFoundError \<and>
          \<not> OverwriteExisting cfg \<and>
          last (trace w') = KvGet (unsealKeyForID cfg (i + int n)) r))"
proof (induction ks arbitrary: i w)
  case Nil
  then show ?case by simp
next
  case (Cons k ks)
  from Cons.prems(1) show ?case
  proof (cases rule: store_keys_Cons_cases)
    case (stop e0)
    from stop(1) have "(\<exists>msg. e0 = KeyStoreError msg \<and>
          last (trace w') = KvSet (unsealKeyForID cfg i) k (Some msg)) \<or>
      (\<exists>r. e0 = KeyExistsError (unsealKeyForID cfg i) \<and> r \<noteq> Inl NotFoundError \<and>
          \<not> OverwriteExisting cfg \<and> last (trace w') = KvGet (unsealKeyForID cfg i) r)"
      by (cases rule: keyStoreSet_cases) auto
    with stop(2) show ?thesis
      by (intro exI [where x = 0] exI [where x = e0]) simp
  next
    case (go w1)
    from Cons.IH [OF go(2)] obtain n e' where n: "n < length ks"
      and e: "e = KeyPersistError (unsealKeyForID cfg (i + 1 + int n)) e'"
      and data: "\<forall>j < n. kv_data w' (unsealKeyForID cfg (i + 1 + int j)) = Some (ks ! j)"
      and ev: "(\<exists>msg. e' = KeyStoreError msg \<and>
          last (trace w') = KvSet (unsealKeyForID cfg (i + 1 + int n)) (ks ! n) (Some msg)) \<or>
      (\<exists>r. e' = KeyExistsError (unsealKeyForID cfg (i + 1 + int n)) \<and> r \<noteq> Inl NotFoundError \<and>
          \<not> OverwriteExisting cfg \<and>
          last (trace w') = KvGet (unsealKeyForID cfg (i + 1 + int n)) r)"
      by blast
    have first: "kv_data w' (unsealKeyForID cfg i) = Some k"
      using store_keys_earlier [OF go(2)] keyStoreSet_stored [OF go(1)] by simp
    have idx: "i + 1 + int m = i + int (Suc m)" for m
      by simp
    have "\<forall>j < Suc n. kv_data w' (unsealKeyForID cfg (i + int j)) = Some ((k # ks) ! j)"
    proof (intro allI impI)
      fix j assume j: "j < Suc n"
      show "kv_data w' (unsealKeyForID cfg (i + int j)) = Some ((k # ks) ! j)"
      proof (cases j)
        case 0
        then show ?thesis using first by simp
      next
        case (Suc j')
        with j have "j' < n" by simp
        with data have "kv_data w' (unsealKeyForID cfg (i + 1 + int j')) = Some (ks ! j')"
          by blast
        then show ?thesis unfolding idx by (simp add: Suc)
      qed
    qed
    with n e ev show ?thesis
      unfolding idx by (intro exI [where x = "Suc n"] exI [where x = e']) simp
  qed
qed

section \<open>Testing for existing keys\<close>


lemma test_keys_Cons_cases:
  assumes "test_keys E (key # keys) w = (err, w')"
  obtains (present) r where "r \<noteq> Inl NotFoundError"
      "get_fault E (now w) key \<noteq> None \<or> kv_data w key \<noteq> None"
      "w' = record_event (KvGet key r) w" "err = Some (PreexistingKeyError key)"
  | (absent) "get_fault E (now w) key = None" "kv_data w key = None"
      "test_keys E keys (record_event (KvGet key (Inl NotFoundError)) w) = (err, w')"
proof -
  obtain nf w1 where nf: "keyStoreNotFound E key w = (nf, w1)"
    by (cases "keyStoreNotFound E key w")
  from nf show ?thesis
  proof (cases rule: keyStoreNotFound_cases)
    case absent
    with assms nf show ?thesis by (intro that(2)) simp_all
  next
    case (other r)
    with assms nf show ?thesis by (intro that(1) [of r]) simp_all
  qed
qed

lemma test_keys_effect:
  "test_keys E keys w = (err, w') \<Longrightarrow>
   trace w' = trace w @ new_events w w' \<and> kv_data w' = kv_data w \<and>
   written_keys (new_events w w') = [] \<and> init_requests (new_events w w') = []"
proof (induction keys arbitrary: w)
  case Nil
  then show ?case by (simp add: new_events_def)
next
  case (Cons key keys)
  from Cons.prems show ?case
  proof (cases rule: test_keys_Cons_cases)
    case (present r)
    then show ?thesis by (simp add: new_events_def)
  next
    case absent
    let ?w1 = "record_event (KvGet key (Inl NotFoundError)) w"
    from Cons.IH [OF absent(3)]
    have ih: "trace w' = trace ?w1 @ new_events ?w1 w'" "kv_data w' = kv_data ?w1"
      "written_keys (new_events ?w1 w') = []" "init_requests (new_events ?w1 w') = []"
      by simp_all
    have "trace w' = trace w @ new_events w w'"
      and "new_events w w' = new_events w ?w1 @ new_events ?w1 w'"
      using grows_record_event(1) ih(1) by (rule grows_trans)+
    with ih show ?thesis by (simp add: grows_record_event(2))
  qed
qed

text \<open>All the keys absent: every one of them is read, in order.\<close>

lemma test_keys_all_absent:
  "\<forall>j < length keys. get_fault E (now w + j) (keys ! j) = None \<and> kv_data w (keys ! j) = None \<Longrightarrow>
   test_keys E keys w =
     (None, w\<lparr>trace := trace w @ map (\<lambda>key. KvGet key (Inl NotFoundError)) keys\<rparr>)"
proof (induction keys arbitrary: w)
  case Nil
  then show ?case by simp
next
  case (Cons key keys)
  let ?w1 = "record_event (KvGet key (Inl NotFoundError)) w"
  from Cons.prems [rule_format, of 0]
  have first: "get_fault E (now w) key = None" "kv_data w key = None"
    by simp_all
  have rest: "\<forall>j < length keys.
      get_fault E (now ?w1 + j) (keys ! j) = None \<and> kv_data ?w1 (keys ! j) = None"
  proof (intro allI impI)
    fix j assume "j < length keys"
    then have "Suc j < length (key # keys)" by simp
    from Cons.prems [rule_format, OF this]
    show "get_fault E (now ?w1 + j) (keys ! j) = None \<and> kv_data ?w1 (keys ! j) = None"
      by simp
  qed
  show ?case
    using Cons.IH [OF rest] keyStoreNotFound_absent [OF first]
    by (simp add: record_event_def)
qed

text \<open>The first key that is not reported absent stops the test.\<close>

lemma test_keys_first_present:
  "n < length keys \<Longrightarrow>
   \<forall>j < n. get_fault E (now w + j) (keys ! j) = None \<and> kv_data w (keys ! j) = None \<Longrightarrow>
   get_fault E (now w + n) (keys ! n) \<noteq> None \<or> kv_data w (keys ! n) \<noteq> None \<Longrightarrow>
   \<exists>r. r \<noteq> Inl NotFoundError \<and>
     test_keys E keys w =
       (Some (PreexistingKeyError (keys ! n)),
        w\<lparr>trace := trace w @ map (\<lambda>key. KvGet key (Inl NotFoundError)) (take n keys) @
                     [KvGet (keys ! n) r]\<rparr>)"
proof (induction keys arbitrary: w n)
  case Nil
  then show ?case by simp
next
  case (Cons key keys)
  show ?case
  proof (cases n)
    case 0
    with Cons.prems(3) have "get_fault E (now w) key \<noteq> None \<or> kv_data w key \<noteq> None"
      by simp
    from keyStoreNotFound_other [OF this] obtain r where "r \<noteq> Inl NotFoundError"
      "keyStoreNotFound E key w = (False, record_event (KvGet key r) w)"
      by blast
    then show ?thesis
      by (intro exI [where x = r]) (simp add: 0 record_event_def)
  next
    case (Suc m)
    let ?w1 = "record_event (KvGet key (Inl NotFoundError)) w"
    from Cons.prems(2) [rule_format, of 0]
    have first: "get_fault E (now w) key = None" "kv_data w key = None"
      by (simp_all add: Suc)
    have m: "m < length keys"
      using Cons.prems(1) by (simp add: Suc)
    have before: "\<forall>j < m.
        get_fault E (now ?w1 + j) (keys ! j) = None \<and> kv_data ?w1 (keys ! j) = None"
    proof (intro allI impI)
      fix j assume "j < m"
      then have "Suc j < n" by (simp add: Suc)
      from Cons.prems(2) [rule_format, OF this]
      show "get_fault E (now ?w1 + j) (keys ! j) = None \<and> kv_data ?w1 (keys ! j) = None"
        by simp
    qed
    have at: "get_fault E (now ?w1 + m) (keys ! m) \<noteq> None \<or> kv_data ?w1 (keys ! m) \<noteq> None"
      using Cons.prems(3) by (simp add: Suc)
    from Cons.IH [OF m before at] obtain r where "r \<noteq> Inl NotFoundError"
      "test_keys E keys ?w1 =
         (Some (PreexistingKeyError (keys ! m)),
          ?w1\<lparr>trace := trace ?w1 @ map (\<lambda>key. KvGet key (Inl NotFoundError)) (take m keys) @
                     [KvGet (keys ! m) r]\<rparr>)"
      by blast
    then show ?thesis
      using keyStoreNotFound_absent [OF first]
      by (intro exI [where x = r]) (simp add: Suc record_event_def)
  qed
qed

section \<open>Storing the response\<close>

lemma store_response_cases:
  assumes "store_response E cfg resp w = (err, w')"
  obtains (shares_failed) e where "store_keys E cfg 0 (Keys resp) w = (Some e, w')" "err = Some e"
  | (no_root) "store_keys E cfg 0 (Keys resp) w = (None, w')" "\<not> StoreRootToken cfg" "err = None"
  | (root_failed) w1 e where "store_keys E cfg 0 (Keys resp) w = (None, w1)" "StoreRootToken cfg"
      "keyStoreSet E cfg (rootTokenKey cfg) (RootToken resp) w1 = (Some e, w')"
      "err = Some (RootPersistError (RootToken resp) (rootTokenKey cfg))"
  | (root_stored) w1 where "store_keys E cfg 0 (Keys resp) w = (None, w1)" "StoreRootToken cfg"
      "keyStoreSet E cfg (rootTokenKey cfg) (RootToken resp) w1 = (None, w')" "err = None"
  using assms
  by (auto simp: store_response_def Let_def split: prod.splits option.splits if_splits)

lemma store_response_new_events:
  assumes "store_keys E cfg 0 (Keys resp) w = (e1, w1)"
    and "keyStoreSet E cfg (rootTokenKey cfg) (RootToken resp) w1 = (e2, w')"
  shows "trace w' = trace w @ new_events w w'"
    and "new_events w w' = new_events w w1 @ new_events w1 w'"
  using store_keys_grows [OF assms(1)] keyStoreSet_grows [OF assms(2)] by (rule grows_trans)+

lemma store_response_grows:
  assumes run: "store_response E cfg resp w = (err, w')"
  shows "trace w' = trace w @ new_events w w'"
  using run
proof (cases rule: store_response_cases)
  case (shares_failed e)
  then show ?thesis by (simp add: store_keys_grows)
next
  case no_root
  then show ?thesis by (simp add: store_keys_grows)
next
  case (root_failed w1 e)
  then show ?thesis by (simp add: store_response_new_events(1))
next
  case (root_stored w1)
  then show ?thesis by (simp add: store_response_new_events(1))
qed

lemma store_response_no_init:
  assumes run: "store_response E cfg resp w = (err, w')"
  shows "init_requests (new_events w w') = []"
  using run
proof (cases rule: store_response_cases)
  case (shares_failed e)
  then show ?thesis by (simp add: store_keys_no_init)
next
  case no_root
  then show ?thesis by (simp add: store_keys_no_init)
next
  case (root_failed w1 e)
  show ?thesis
    unfolding store_response_new_events(2) [OF root_failed(1,3)]
    by (simp add: store_keys_no_init [OF root_failed(1)] keyStoreSet_no_init [OF root_failed(3)])
next
  case (root_stored w1)
  show ?thesis
    unfolding store_response_new_events(2) [OF root_stored(1,3)]
    by (simp add: store_keys_no_init [OF root_stored(1)] keyStoreSet_no_init [OF root_stored(3)])
qed



lemma store_keys_not_root:
  assumes "store_keys E cfg i ks w = (err, w')"
  shows "rootTokenKey cfg \<notin> set (written_keys (new_events w w'))"
  using store_keys_written [OF assms] by (auto simp: rootTokenKey_not_unseal)

lemma store_response_no_root:
  assumes run: "store_response E cfg resp w = (err, w')" and no: "\<not> StoreRootToken cfg"
  shows "rootTokenKey cfg \<notin> set (written_keys (new_events w w'))"
  using run
proof (cases rule: store_response_cases)
  case (shares_failed e)
  then show ?thesis by (simp add: store_keys_not_root)
next
  case no_root
  then show ?thesis by (simp add: store_keys_not_root)
next
  case (root_failed w1 e)
  with no show ?thesis by simp
next
  case (root_stored w1)
  with no show ?thesis by simp
qed

section \<open>The phases of Init\<close>

lemma test_keys_error:
  "test_keys E keys w = (Some e, w') \<Longrightarrow> \<exists>key. e = PreexistingKeyError key"
proof (induction keys arbitrary: w)
  case Nil
  then show ?case by simp
next
  case (Cons key keys)
  from Cons.prems show ?case
    by (cases rule: test_keys_Cons_cases) (auto dest: Cons.IH)
qed

text \<open>What \<open>Init\<close> has done when it asks the vault, or when it stops before: one probe,
  reads, no write and no change of the keystore.\<close>

lemma precheck_effect:
  assumes "(if \<not> OverwriteExisting cfg
            then test_keys E (precheck_keys cfg) (record_event (KvTest (testKey cfg) None) w)
            else (None, record_event (KvTest (testKey cfg) None) w)) = (perr, w2)"
  shows "trace w2 = trace w @ new_events w w2 \<and> kv_data w2 = kv_data w \<and>
     written_keys (new_events w w2) = [] \<and> init_requests (new_events w w2) = []"
proof (cases "OverwriteExisting cfg")
  case True
  with assms show ?thesis by (auto simp: new_events_def)
next
  case False
  let ?w1 = "record_event (KvTest (testKey cfg) None) w"
  from assms False have run: "test_keys E (precheck_keys cfg) ?w1 = (perr, w2)"
    by simp
  from test_keys_effect [OF run]
  have tk: "trace w2 = trace ?w1 @ new_events ?w1 w2" "kv_data w2 = kv_data ?w1"
    "written_keys (new_events ?w1 w2) = []" "init_requests (new_events ?w1 w2) = []"
    by simp_all
  have "trace w2 = trace w @ new_events w w2"
    and "new_events w w2 = new_events w ?w1 @ new_events ?w1 w2"
    using grows_record_event(1) tk(1) by (rule grows_trans)+
  with tk show ?thesis by (simp add: grows_record_event(2))
qed

lemma Init_cases:
  assumes "Init E cfg w = (err, w')"
  obtains (early) "trace w' = trace w @ new_events w w'" "kv_data w' = kv_data w"
      "written_keys (new_events w w') = []" "init_requests (new_events w w') = []"
      "(\<exists>msg. err = Some (InitPrecheckError msg)) \<or> (\<exists>key. err = Some (PreexistingKeyError key))"
  | (vault_failed) msg where "trace w' = trace w @ new_events w w'" "kv_data w' = kv_data w"
      "written_keys (new_events w w') = []"
      "init_requests (new_events w w') = [(SecretShares cfg, SecretThreshold cfg)]"
      "err = Some (VaultInitError msg)"
  | (answered) resp w3 where "trace w3 = trace w @ new_events w w3" "kv_data w3 = kv_data w"
      "written_keys (new_events w w3) = []"
      "init_requests (new_events w w3) = [(SecretShares cfg, SecretThreshold cfg)]"
      "VaultInit (SecretShares cfg) (SecretThreshold cfg) (Inr resp) \<in> set (new_events w w3)"
      "store_response E cfg resp w3 = (err, w')"
proof (cases "test_result E (now w) (testKey cfg)")
  case (Some msg)
  with assms have "err = Some (InitPrecheckError msg)"
    "w' = record_event (KvTest (testKey cfg) (Some msg)) w"
    by (simp_all add: Init_def keyStore_Test_def Let_def)
  then show ?thesis
    by (intro that(1)) (simp_all add: new_events_def)
next
  case None
  let ?w1 = "record_event (KvTest (testKey cfg) None) w"
  let ?pre = "if \<not> OverwriteExisting cfg then test_keys E (precheck_keys cfg) ?w1 else (None, ?w1)"
  obtain perr w2 where pre: "?pre = (perr, w2)"
    by (cases ?pre)
  note eff = precheck_effect [OF pre]
  show ?thesis
  proof (cases perr)
    case (Some e)
    with pre have no: "\<not> OverwriteExisting cfg"
      and tk: "test_keys E (precheck_keys cfg) ?w1 = (Some e, w2)"
      by (auto split: if_splits)
    from assms None pre Some have "err = Some e" "w' = w2"
      by (simp_all add: Init_def keyStore_Test_def Let_def)
    with eff test_keys_error [OF tk] show ?thesis
      by (intro that(1)) auto
  next
    case perr: None
    let ?S = "SecretShares cfg" and ?T = "SecretThreshold cfg"
    let ?r = "init_result E (now w2) ?S ?T"
    let ?w3 = "record_event (VaultInit ?S ?T ?r) w2"
    have g3: "trace ?w3 = trace w @ new_events w ?w3"
      and n3: "new_events w ?w3 = new_events w w2 @ new_events w2 ?w3"
      using eff grows_record_event(1) by (blast intro: grows_trans)+
    have ev3: "new_events w ?w3 = new_events w w2 @ [VaultInit ?S ?T ?r]"
      unfolding n3 by (simp add: grows_record_event(2))
    have w3: "kv_data ?w3 = kv_data w" "written_keys (new_events w ?w3) = []"
      "init_requests (new_events w ?w3) = [(?S, ?T)]"
      "VaultInit ?S ?T ?r \<in> set (new_events w ?w3)"
      unfolding ev3 using eff by simp_all
    show ?thesis
    proof (cases ?r)
      case (Inl msg)
      with assms None pre perr have "err = Some (VaultInitError msg)" "w' = ?w3"
        by (simp_all add: Init_def keyStore_Test_def vault_Init_def Let_def)
      with g3 w3 show ?thesis
        by (intro that(2) [of msg]) simp_all
    next
      case (Inr resp)
      with assms None pre perr have "store_response E cfg resp ?w3 = (err, w')"
        by (simp add: Init_def keyStore_Test_def vault_Init_def Let_def)
      with g3 w3 Inr show ?thesis
        by (intro that(3) [of ?w3 resp]) simp_all
    qed
  qed
qed

lemma Init_answered_new_events:
  assumes "trace w3 = trace w @ new_events w w3"
    and "store_response E cfg resp w3 = (err, w')"
  shows "trace w' = trace w @ new_events w w'"
    and "new_events w w' = new_events w w3 @ new_events w3 w'"
  using assms(1) store_response_grows [OF assms(2)] by (rule grows_trans)+

lemma keyStoreSet_write_failed:
  assumes "keyStoreSet E cfg key val w = (Some e, w')"
  shows "write_failed cfg key val e (last (trace w'))"
  using assms by (cases rule: keyStoreSet_cases) (simp_all add: write_failed_def)

lemma store_keys_write_failed:
  assumes "store_keys E cfg 0 ks w = (Some e, w')"
  shows "\<exists>n e'. n < length ks \<and> e = KeyPersistError (unsealKeyForID cfg (int n)) e' \<and>
     write_failed cfg (unsealKeyForID cfg (int n)) (ks ! n) e' (last (trace w')) \<and>
     (\<forall>j < n. kv_data w' (unsealKeyForID cfg (int j)) = Some (ks ! j))"
proof -
  from store_keys_fail [OF assms] obtain n e' where n: "n < length ks"
    and e: "e = KeyPersistError (unsealKeyForID cfg (int n)) e'"
    and data: "\<forall>j < n. kv_data w' (unsealKeyForID cfg (int j)) = Some (ks ! j)"
    and ev: "(\<exists>msg. e' = KeyStoreError msg \<and>
          last (trace w') = KvSet (unsealKeyForID cfg (int n)) (ks ! n) (Some msg)) \<or>
      (\<exists>r. e' = KeyExistsError (unsealKeyForID cfg (int n)) \<and> r \<noteq> Inl NotFoundError \<and>
          \<not> OverwriteExisting cfg \<and>
          last (trace w') = KvGet (unsealKeyForID cfg (int n)) r)"
    by auto
  from ev have "write_failed cfg (unsealKeyForID cfg (int n)) (ks ! n) e' (last (trace w'))"
    by (auto simp: write_failed_def)
  with n e data show ?thesis by blast
qed



lemma unseal_key_written_iff:
  "unsealKeyForID cfg i \<in> (\<lambda>j. unsealKeyForID cfg (int j)) ` {..< n} \<longleftrightarrow> 0 \<le> i \<and> i < int n"
proof
  assume "unsealKeyForID cfg i \<in> (\<lambda>j. unsealKeyForID cfg (int j)) ` {..< n}"
  then obtain j where "j < n" "unsealKeyForID cfg i = unsealKeyForID cfg (int j)"
    by auto
  then show "0 \<le> i \<and> i < int n"
    by (simp add: unsealKeyForID_inj)
next
  assume "0 \<le> i \<and> i < int n"
  then have "nat i < n" "i = int (nat i)" by (simp_all add: nat_less_iff)
  then show "unsealKeyForID cfg i \<in> (\<lambda>j. unsealKeyForID cfg (int j)) ` {..< n}"
    by (metis imageI lessThan_iff)
qed

text \<open>What a successful run of \<open>store_response\<close> leaves behind.\<close>

lemma store_response_ok:
  assumes run: "store_response E cfg resp w = (None, w')"
  shows "\<forall>j < length (Keys resp). kv_data w' (unsealKeyForID cfg (int j)) = Some (Keys resp ! j)"
    and "written_keys (new_events w w') =
         map (\<lambda>j. unsealKeyForID cfg (int j)) [0 ..< length (Keys resp)] @
         (if StoreRootToken cfg then [rootTokenKey cfg] else [])"
proof -
  from run have "(\<forall>j < length (Keys resp).
        kv_data w' (unsealKeyForID cfg (int j)) = Some (Keys resp ! j)) \<and>
     written_keys (new_events w w') =
         map (\<lambda>j. unsealKeyForID cfg (int j)) [0 ..< length (Keys resp)] @
         (if StoreRootToken cfg then [rootTokenKey cfg] else [])"
  proof (cases rule: store_response_cases)
    case (shares_failed e)
    then show ?thesis by simp
  next
    case no_root
    with store_keys_ok_data [OF no_root(1)] store_keys_ok_written [OF no_root(1)]
    show ?thesis by simp
  next
    case (root_failed w1 e)
    then show ?thesis by simp
  next
    case (root_stored w1)
    have "kv_data w' (unsealKeyForID cfg (int j)) = Some (Keys resp ! j)"
      if "j < length (Keys resp)" for j
      using keyStoreSet_other [OF root_stored(3), of "unsealKeyForID cfg (int j)"]
        store_keys_ok_data [OF root_stored(1) that] rootTokenKey_not_unseal [of cfg "int j"]
      by simp
    moreover have "written_keys (new_events w w') =
         map (\<lambda>j. unsealKeyForID cfg (int j)) [0 ..< length (Keys resp)] @ [rootTokenKey cfg]"
      unfolding store_response_new_events(2) [OF root_stored(1,3)]
      using store_keys_ok_written [OF root_stored(1)] keyStoreSet_written_ok [OF root_stored(3)]
      by simp
    ultimately show ?thesis using root_stored(2) by simp
  qed
  then show "\<forall>j < length (Keys resp).
      kv_data w' (unsealKeyForID cfg (int j)) = Some (Keys resp ! j)"
    and "written_keys (new_events w w') =
         map (\<lambda>j. unsealKeyForID cfg (int j)) [0 ..< length (Keys resp)] @
         (if StoreRootToken cfg then [rootTokenKey cfg] else [])"
    by simp_all
qed

section \<open>The test for existing keys inside Init\<close>

lemma precheck_stops_Init:
  assumes no: "\<not> OverwriteExisting cfg"
    and probe: "test_result E (now w) (testKey cfg) = None"
    and n: "n < length (precheck_keys cfg)"
    and before: "\<forall>j < n. reports_absent E w (now w + 1 + j) (precheck_keys cfg ! j)"
    and at: "\<not> reports_absent E w (now w + 1 + n) (precheck_keys cfg ! n)"
  shows "\<exists>r. r \<noteq> Inl NotFoundError \<and>
     Init E cfg w =
       (Some (PreexistingKeyError (precheck_keys cfg ! n)),
        w\<lparr>trace := trace w @ KvTest (testKey cfg) None #
                     map (\<lambda>key. KvGet key (Inl NotFoundError)) (take n (precheck_keys cfg)) @
                     [KvGet (precheck_keys cfg ! n) r]\<rparr>)"
proof -
  let ?w1 = "record_event (KvTest (testKey cfg) None) w"
  let ?pk = "precheck_keys cfg"
  have b: "\<forall>j < n. get_fault E (now ?w1 + j) (?pk ! j) = None \<and> kv_data ?w1 (?pk ! j) = None"
    using before by (simp add: reports_absent_def)
  have a: "get_fault E (now ?w1 + n) (?pk ! n) \<noteq> None \<or> kv_data ?w1 (?pk ! n) \<noteq> None"
    using at by (auto simp: reports_absent_def)
  from test_keys_first_present [OF n b a] obtain r where r: "r \<noteq> Inl NotFoundError"
    and tk: "test_keys E ?pk ?w1 =
       (Some (PreexistingKeyError (?pk ! n)),
        ?w1\<lparr>trace := trace ?w1 @ map (\<lambda>key. KvGet key (Inl NotFoundError)) (take n ?pk) @
                     [KvGet (?pk ! n) r]\<rparr>)"
    by blast
  have "Init E cfg w =
       (Some (PreexistingKeyError (?pk ! n)),
        w\<lparr>trace := trace w @ KvTest (testKey cfg) None #
                     map (\<lambda>key. KvGet key (Inl NotFoundError)) (take n ?pk) @
                     [KvGet (?pk ! n) r]\<rparr>)"
    using no probe tk by (simp add: Init_def keyStore_Test_def Let_def record_event_def)
  with r show ?thesis by blast
qed

lemma precheck_lets_Init_go:
  assumes no: "\<not> OverwriteExisting cfg"
    and probe: "test_result E (now w) (testKey cfg) = None"
    and absent: "\<forall>j < length (precheck_keys cfg).
        reports_absent E w (now w + 1 + j) (precheck_keys cfg ! j)"
  shows "\<exists>rest. new_events w (snd (Init E cfg w)) =
     KvTest (testKey cfg) None #
     map (\<lambda>key. KvGet key (Inl NotFoundError)) (precheck_keys cfg) @
     VaultInit (SecretShares cfg) (SecretThreshold cfg)
       (init_result E (now w + 1 + length (precheck_keys cfg))
          (SecretShares cfg) (SecretThreshold cfg)) # rest"
proof -
  let ?w1 = "record_event (KvTest (testKey cfg) None) w"
  let ?pk = "precheck_keys cfg"
  let ?gets = "map (\<lambda>key. KvGet key (Inl NotFoundError)) ?pk"
  let ?w2 = "?w1\<lparr>trace := trace ?w1 @ ?gets\<rparr>"
  let ?S = "SecretShares cfg" and ?T = "SecretThreshold cfg"
  let ?r = "init_result E (now w + 1 + length ?pk) ?S ?T"
  let ?w3 = "record_event (VaultInit ?S ?T ?r) ?w2"
  have b: "\<forall>j < length ?pk.
      get_fault E (now ?w1 + j) (?pk ! j) = None \<and> kv_data ?w1 (?pk ! j) = None"
    using absent by (simp add: reports_absent_def)
  have tk: "test_keys E ?pk ?w1 = (None, ?w2)"
    using b by (rule test_keys_all_absent)
  have now2: "now ?w2 = now w + 1 + length ?pk"
    by (simp add: now_def)
  have t3: "trace ?w3 = trace w @ KvTest (testKey cfg) None # ?gets @ [VaultInit ?S ?T ?r]"
    by simp
  have vi: "vault_Init E ?S ?T ?w2 = (?r, ?w3)"
    by (simp only: vault_Init_def Let_def now2)
  show ?thesis
  proof (cases ?r)
    case (Inl msg)
    have "Init E cfg w = (Some (VaultInitError msg), ?w3)"
      using no probe tk vi Inl
      by (simp add: Init_def keyStore_Test_def Let_def)
    then have "new_events w (snd (Init E cfg w)) =
        KvTest (testKey cfg) None # ?gets @ VaultInit ?S ?T ?r # []"
      using t3 by (simp add: new_events_def)
    then show ?thesis by blast
  next
    case (Inr resp)
    have run: "Init E cfg w = store_response E cfg resp ?w3"
      using no probe tk vi Inr
      by (simp add: Init_def keyStore_Test_def Let_def)
    obtain err w' where sr: "store_response E cfg resp ?w3 = (err, w')"
      by (cases "store_response E cfg resp ?w3")
    have "trace w' = trace w @ (KvTest (testKey cfg) None # ?gets @
        VaultInit ?S ?T ?r # new_events ?w3 w')"
      using store_response_grows [OF sr] t3 by simp
    then have "new_events w w' =
        KvTest (testKey cfg) None # ?gets @ VaultInit ?S ?T ?r # new_events ?w3 w'"
      by (rule new_events_append)
    with run sr show ?thesis by simp
  qed
qed

lemma prod_precheck_keys:
  "precheck_keys prod_cfg =
     [''prod-root'', ''prod-unseal-0'', ''prod-unseal-1'', ''prod-unseal-2'',
      ''prod-unseal-3'', ''prod-unseal-4'', ''prod-unseal-5'']"
  by code_simp

section \<open>The indices written, and the first write that fails\<close>

lemma init_answers_append [simp]:
  "init_answers (xs @ ys) = init_answers xs @ init_answers ys"
  by (induction xs rule: init_answers.induct) auto

lemma init_answers_member:
  "VaultInit s t (Inr resp) \<in> set evs \<Longrightarrow> resp \<in> set (init_answers evs)"
  by (induction evs rule: init_answers.induct) auto

lemma init_answers_none: "init_requests evs = [] \<Longrightarrow> init_answers evs = []"
  by (induction evs rule: init_answers.induct) auto

lemma store_response_written:
  assumes run: "store_response E cfg resp w = (err, w')"
  shows "set (written_keys (new_events w w')) \<subseteq>
     (\<lambda>j. unsealKeyForID cfg (int j)) ` {..< length (Keys resp)} \<union> {rootTokenKey cfg}"
  using run
proof (cases rule: store_response_cases)
  case (shares_failed e)
  with store_keys_written [OF shares_failed(1)] show ?thesis by auto
next
  case no_root
  with store_keys_written [OF no_root(1)] show ?thesis by auto
next
  case (root_failed w1 e)
  show ?thesis
    unfolding store_response_new_events(2) [OF root_failed(1,3)]
    using store_keys_written [OF root_failed(1)] keyStoreSet_written [OF root_failed(3)]
    by auto
next
  case (root_stored w1)
  show ?thesis
    unfolding store_response_new_events(2) [OF root_stored(1,3)]
    using store_keys_written [OF root_stored(1)] keyStoreSet_written [OF root_stored(3)]
    by auto
qed

text \<open>The unseal keys that a run of \<open>Init\<close> writes are among those of the indices of the
  vault's response.\<close>

lemma Init_written_indices:
  assumes run: "Init E cfg w = (err, w')"
    and i: "unsealKeyForID cfg i \<in> set (written_keys (new_events w w'))"
  shows "\<exists>resp \<in> set (init_answers (new_events w w')). 0 \<le> i \<and> i < int (length (Keys resp))"
  using run
proof (cases rule: Init_cases)
  case early
  with i show ?thesis by simp
next
  case (vault_failed msg)
  with i show ?thesis by simp
next
  case (answered resp w3)
  note ev = Init_answered_new_events(2) [OF answered(1,6)]
  have "resp \<in> set (init_answers (new_events w w'))"
    unfolding ev using init_answers_member [OF answered(5)] by simp
  moreover from i have "unsealKeyForID cfg i \<in> set (written_keys (new_events w3 w'))"
    unfolding ev using answered(3) by simp
  with store_response_written [OF answered(6)]
  have "unsealKeyForID cfg i \<in> (\<lambda>j. unsealKeyForID cfg (int j)) ` {..< length (Keys resp)}"
    using rootTokenKey_not_unseal [of cfg i] by auto
  then have "0 \<le> i \<and> i < int (length (Keys resp))"
    by (simp only: unseal_key_written_iff)
  ultimately show ?thesis by blast
qed

lemma precheck_indices:
  "{i. unsealKeyForID cfg i \<in> set (precheck_keys cfg)} = {0 .. SecretShares cfg}"
proof -
  have "unsealKeyForID cfg i \<in> set (precheck_keys cfg) \<longleftrightarrow> 0 \<le> i \<and> i \<le> SecretShares cfg" for i
    using rootTokenKey_not_unseal [of cfg i]
    by (auto simp: precheck_keys_def unsealKeyForID_inj)
  then show ?thesis by (simp add: set_eq_iff)
qed

lemma store_keys_append:
  "store_keys E cfg i (xs @ ys) w =
     (case store_keys E cfg i xs w of
        (Some e, w') \<Rightarrow> (Some e, w')
      | (None, w') \<Rightarrow> store_keys E cfg (i + int (length xs)) ys w')"
proof (induction xs arbitrary: i w)
  case Nil
  then show ?case by simp
next
  case (Cons k ks)
  obtain err w1 where s: "keyStoreSet E cfg (unsealKeyForID cfg i) k w = (err, w1)"
    by (cases "keyStoreSet E cfg (unsealKeyForID cfg i) k w")
  show ?case
  proof (cases err)
    case None
    have eq: "i + int (length (k # ks)) = i + 1 + int (length ks)" by simp
    show ?thesis
      unfolding eq using None s Cons.IH [of "i + 1" w1] by simp
  next
    case (Some e)
    with s show ?thesis by simp
  qed
qed

text \<open>Once the vault has answered, \<open>Init\<close> is the storing of the response.\<close>

lemma Init_answered:
  assumes "keyStore_Test E (testKey cfg) w = (None, w1)"
    and "(if \<not> OverwriteExisting cfg then test_keys E (precheck_keys cfg) w1 else (None, w1)) =
           (None, w2)"
    and "vault_Init E (SecretShares cfg) (SecretThreshold cfg) w2 = (Inr resp, w3)"
  shows "Init E cfg w = store_response E cfg resp w3"
  using assms by (simp add: Init_def)

lemma store_keys_fails_at:
  assumes j: "j < length ks"
    and before: "store_keys E cfg i (take j ks) w = (None, w4)"
    and at: "keyStoreSet E cfg (unsealKeyForID cfg (i + int j)) (ks ! j) w4 = (Some e, w5)"
  shows "store_keys E cfg i ks w = (Some (KeyPersistError (unsealKeyForID cfg (i + int j)) e), w5)"
proof -
  have len: "length (take j ks) = j"
    using j by simp
  have "store_keys E cfg i (take j ks @ ks ! j # drop (Suc j) ks) w =
      (Some (KeyPersistError (unsealKeyForID cfg (i + int j)) e), w5)"
    unfolding store_keys_append before len using at by simp
  then show ?thesis
    using j by (simp only: id_take_nth_drop [symmetric])
qed

text \<open>Where the errors of a share or a root token that could not be stored come from: the
  last call of the run is the write, or the guarding read, that failed.\<close>

lemma persist_error_origin:
  "(Init E cfg w = (Some (KeyPersistError key e), w') \<longrightarrow>
      (\<exists>resp n.
         VaultInit (SecretShares cfg) (SecretThreshold cfg) (Inr resp) \<in> set (new_events w w') \<and>
         n < length (Keys resp) \<and> key = unsealKeyForID cfg (int n) \<and>
         write_failed cfg key (Keys resp ! n) e (last (trace w')) \<and>
         (\<forall>j < n. kv_data w' (unsealKeyForID cfg (int j)) = Some (Keys resp ! j)))) \<and>
   (Init E cfg w = (Some (RootPersistError tok key), w') \<longrightarrow>
      (\<exists>resp e'.
         VaultInit (SecretShares cfg) (SecretThreshold cfg) (Inr resp) \<in> set (new_events w w') \<and>
         StoreRootToken cfg \<and> tok = RootToken resp \<and> key = rootTokenKey cfg \<and>
         write_failed cfg key tok e' (last (trace w')) \<and>
         (\<forall>j < length (Keys resp).
            kv_data w' (unsealKeyForID cfg (int j)) = Some (Keys resp ! j))))"
proof (intro conjI impI)
  assume "Init E cfg w = (Some (KeyPersistError key e), w')"
  then show "\<exists>resp n.
         VaultInit (SecretShares cfg) (SecretThreshold cfg) (Inr resp) \<in> set (new_events w w') \<and>
         n < length (Keys resp) \<and> key = unsealKeyForID cfg (int n) \<and>
         write_failed cfg key (Keys resp ! n) e (last (trace w')) \<and>
         (\<forall>j < n. kv_data w' (unsealKeyForID cfg (int j)) = Some (Keys resp ! j))"
  proof (cases rule: Init_cases)
    case early
    then show ?thesis by auto
  next
    case (vault_failed msg)
    then show ?thesis by simp
  next
    case (answered resp w3)
    have a: "VaultInit (SecretShares cfg) (SecretThreshold cfg) (Inr resp)
        \<in> set (new_events w w')"
      unfolding Init_answered_new_events(2) [OF answered(1,6)] using answered(5) by simp
    from answered(6) show ?thesis
    proof (cases rule: store_response_cases)
      case (shares_failed e0)
      from store_keys_write_failed [OF shares_failed(1)] shares_failed(2) a show ?thesis
        by auto
    qed simp_all
  qed
next
  assume "Init E cfg w = (Some (RootPersistError tok key), w')"
  then show "\<exists>resp e'.
         VaultInit (SecretShares cfg) (SecretThreshold cfg) (Inr resp) \<in> set (new_events w w') \<and>
         StoreRootToken cfg \<and> tok = RootToken resp \<and> key = rootTokenKey cfg \<and>
         write_failed cfg key tok e' (last (trace w')) \<and>
         (\<forall>j < length (Keys resp).
            kv_data w' (unsealKeyForID cfg (int j)) = Some (Keys resp ! j))"
  proof (cases rule: Init_cases)
    case early
    then show ?thesis by auto
  next
    case (vault_failed msg)
    then show ?thesis by simp
  next
    case (answered resp w3)
    have a: "VaultInit (SecretShares cfg) (SecretThreshold cfg) (Inr resp)
        \<in> set (new_events w w')"
      unfolding Init_answered_new_events(2) [OF answered(1,6)] using answered(5) by simp
    from answered(6) show ?thesis
    proof (cases rule: store_response_cases)
      case (shares_failed e0)
      from store_keys_write_failed [OF shares_failed(1)] shares_failed(2) show ?thesis
        by auto
    next
      case (root_failed w1 e0)
      have "kv_data w' (unsealKeyForID cfg (int j)) = Some (Keys resp ! j)"
        if "j < length (Keys resp)" for j
        using keyStoreSet_failed [OF root_failed(3)] store_keys_ok_data [OF root_failed(1) that]
        by simp
      with a root_failed keyStoreSet_write_failed [OF root_failed(3)] show ?thesis
        by (intro exI [where x = resp] exI [where x = e0]) simp
    qed simp_all
  qed
qed

section \<open>Claims about key derivation\<close>

text \<open>
  C2. The three key names are functions of the prefix (and the index) alone, with the
  persisted format: the unseal key of index \<open>i\<close> is the prefix, \<open>-unseal-\<close> and the
  decimal numeral of \<open>i\<close> (reading the numeral back gives \<open>i\<close>); the root key is the
  prefix and \<open>-root\<close>; the probe key is the prefix and \<open>-test\<close>. Two configurations
  with the same prefix derive the same keys, and distinct indices derive distinct keys.
\<close>

theorem key_naming:
  "unsealKeyForID cfg i = KeyPrefix cfg @ ''-unseal-'' @ fmt_d i \<and>
   decimal_val (fmt_d i) = i \<and>
   rootTokenKey cfg = KeyPrefix cfg @ ''-root'' \<and>
   testKey cfg = KeyPrefix cfg @ ''-test'' \<and>
   (KeyPrefix cfg' = KeyPrefix cfg \<longrightarrow>
      unsealKeyForID cfg' i = unsealKeyForID cfg i \<and>
      rootTokenKey cfg' = rootTokenKey cfg \<and>
      testKey cfg' = testKey cfg) \<and>
   (unsealKeyForID cfg i = unsealKeyForID cfg j \<longleftrightarrow> i = j)"
  by (simp add: unsealKeyForID_def rootTokenKey_def testKey_def decimal_val_fmt_d)
     (auto dest: fmt_d_inj)

theorem key_naming_witness:
  "unsealKeyForID prod_cfg 12 = ''prod-unseal-12'' \<and>
   decimal_val ''12'' = 12 \<and>
   rootTokenKey prod_cfg = ''prod-root'' \<and>
   testKey prod_cfg = ''prod-test'' \<and>
   KeyPrefix (prod_cfg\<lparr>SecretShares := 7, StoreRootToken := False\<rparr>) = KeyPrefix prod_cfg \<and>
   unsealKeyForID (prod_cfg\<lparr>SecretShares := 7, StoreRootToken := False\<rparr>) 12 = ''prod-unseal-12''"
  using key_naming [of prod_cfg 12 "prod_cfg\<lparr>SecretShares := 7, StoreRootToken := False\<rparr>" 12]
  by (simp add: prod_keys decimal_12 unsealKeyForID_def rootTokenKey_def testKey_def prod_cfg_def)

section \<open>Claims about Unseal\<close>

text \<open>
  C3. If the keystore yields the shares of the indices \<open>0, \<dots>, k - 1\<close>, the vault answers
  every submission before the \<open>k\<close>-th with \<open>Sealed\<close> and a progress other than \<open>0\<close>, and
  answers the \<open>k\<close>-th with \<open>Sealed = false\<close>, then \<open>Unseal\<close> returns, without error, having
  read exactly the \<open>k\<close> unseal keys of these indices, once each and in order, and having
  submitted exactly these \<open>k\<close> shares; it made no other call. With \<open>k\<close> the threshold, it
  needs no more reads than the threshold.
\<close>

theorem Unseal_succeeds:
  assumes "shares \<noteq> []"
    and "yields_shares E cfg w shares"
    and "vault_answers E w shares resps"
    and "\<forall>j < length shares - 1. in_progress (resps ! j)"
    and "\<not> Sealed (last resps)"
  shows "\<exists>w'. Unseal E cfg w = Some (None, w') \<and>
           read_keys (new_events w w') = map (\<lambda>j. unsealKeyForID cfg (int j)) [0 ..< length shares] \<and>
           submitted_shares (new_events w w') = shares \<and>
           length (read_keys (new_events w w')) = length shares \<and>
           length (submitted_shares (new_events w w')) = length shares \<and>
           length (new_events w w') = 2 * length shares \<and>
           (int (length shares) = SecretThreshold cfg \<longrightarrow>
              int (length (read_keys (new_events w w'))) \<le> SecretThreshold cfg)"
proof -
  let ?w' = "w\<lparr>trace := trace w @ unseal_events cfg 0 shares resps\<rparr>"
  have len: "length resps = length shares"
    using assms(3) by (simp add: vault_answers_def)
  have run: "Unseal E cfg w = Some (None, ?w')"
    using Unseal_last_answer [OF assms(1-4)] assms(5) by (simp add: Let_def)
  have ev: "new_events w ?w' = unseal_events cfg 0 shares resps"
    by (simp add: new_events_def)
  have "read_keys (new_events w ?w') = map (\<lambda>j. unsealKeyForID cfg (int j)) [0 ..< length shares]"
    unfolding ev using read_keys_unseal_events [OF len, of cfg 0] by simp
  moreover have "submitted_shares (new_events w ?w') = shares"
    unfolding ev using len by (rule submitted_shares_unseal_events)
  moreover have "length (new_events w ?w') = 2 * length shares"
    unfolding ev using len by (rule length_unseal_events)
  ultimately show ?thesis
    using run by simp
qed

theorem Unseal_succeeds_witness:
  "[''k0'', ''k1'', ''k2''] \<noteq> [] \<and>
   yields_shares calm_env prod_cfg stored_world [''k0'', ''k1'', ''k2''] \<and>
   vault_answers calm_env stored_world [''k0'', ''k1'', ''k2'']
     [\<lparr>Sealed = True, Progress = 1\<rparr>, \<lparr>Sealed = True, Progress = 2\<rparr>, \<lparr>Sealed = False, Progress = 0\<rparr>] \<and>
   (\<exists>w'. Unseal calm_env prod_cfg stored_world = Some (None, w') \<and>
      read_keys (new_events stored_world w') = [''prod-unseal-0'', ''prod-unseal-1'', ''prod-unseal-2''] \<and>
      submitted_shares (new_events stored_world w') = [''k0'', ''k1'', ''k2''] \<and>
      length (new_events stored_world w') = 6 \<and>
      int (length (read_keys (new_events stored_world w'))) \<le> SecretThreshold prod_cfg)"
proof -
  let ?shares = "[''k0'', ''k1'', ''k2'']"
  let ?resps = "[\<lparr>Sealed = True, Progress = 1\<rparr>, \<lparr>Sealed = True, Progress = 2\<rparr>,
                 \<lparr>Sealed = False, Progress = 0\<rparr>]"
  have h1: "?shares \<noteq> []" by simp
  have h2: "yields_shares calm_env prod_cfg stored_world ?shares"
    by (simp add: yields_shares_def All_less_Suc calm_env_def stored_world_def prod_keys)
  have h3: "vault_answers calm_env stored_world ?shares ?resps"
    by (simp add: vault_answers_def All_less_Suc calm_env_def stored_world_def now_def)
  have h4: "\<forall>j < length ?shares - 1. in_progress (?resps ! j)"
    by (simp add: All_less_Suc in_progress_def)
  have h5: "\<not> Sealed (last ?resps)" by simp
  have h6: "int (length ?shares) = SecretThreshold prod_cfg"
    by (simp add: prod_cfg_def)
  show ?thesis
    using h2 h3 h6 Unseal_succeeds [OF h1 h2 h3 h4 h5]
    by (simp add: prod_keys upt_rec) blast
qed

text \<open>
  C4. The first answer of the vault that reports \<open>Sealed\<close> with the progress \<open>0\<close> ends
  \<open>Unseal\<close> with the error of a reset progress: that answer is the last call of the run,
  every index was read once (no retry) and nothing is read or submitted after it.
\<close>

theorem Unseal_progress_reset:
  assumes "shares \<noteq> []"
    and "yields_shares E cfg w shares"
    and "vault_answers E w shares resps"
    and "\<forall>j < length shares - 1. in_progress (resps ! j)"
    and "Sealed (last resps) \<and> Progress (last resps) = 0"
  shows "\<exists>w'. Unseal E cfg w = Some (Some ProgressResetError, w') \<and>
           read_keys (new_events w w') = map (\<lambda>j. unsealKeyForID cfg (int j)) [0 ..< length shares] \<and>
           submitted_shares (new_events w w') = shares \<and>
           length (new_events w w') = 2 * length shares \<and>
           last (trace w') = VaultUnseal (last shares) (Inr (last resps))"
proof -
  let ?w' = "w\<lparr>trace := trace w @ unseal_events cfg 0 shares resps\<rparr>"
  have len: "length resps = length shares"
    using assms(3) by (simp add: vault_answers_def)
  have run: "Unseal E cfg w = Some (Some ProgressResetError, ?w')"
    using Unseal_last_answer [OF assms(1-4)] assms(5) by (simp add: Let_def)
  have ev: "new_events w ?w' = unseal_events cfg 0 shares resps"
    by (simp add: new_events_def)
  have "read_keys (new_events w ?w') = map (\<lambda>j. unsealKeyForID cfg (int j)) [0 ..< length shares]"
    unfolding ev using read_keys_unseal_events [OF len, of cfg 0] by simp
  moreover have "submitted_shares (new_events w ?w') = shares"
    unfolding ev using len by (rule submitted_shares_unseal_events)
  moreover have "length (new_events w ?w') = 2 * length shares"
    unfolding ev using len by (rule length_unseal_events)
  moreover have "last (trace ?w') = VaultUnseal (last shares) (Inr (last resps))"
  proof -
    from assms(1) obtain ss s where shares: "shares = ss @ [s]"
      by (cases shares rule: rev_cases) auto
    with len obtain rs r where resps: "resps = rs @ [r]" and len': "length rs = length ss"
      by (cases resps rule: rev_cases) auto
    show ?thesis
      by (simp add: shares resps unseal_events_snoc [OF len'])
  qed
  ultimately show ?thesis
    using run by simp
qed

theorem Unseal_progress_reset_witness:
  "[''k0'', ''k1''] \<noteq> [] \<and>
   yields_shares reset_env prod_cfg stored_world [''k0'', ''k1''] \<and>
   vault_answers reset_env stored_world [''k0'', ''k1'']
     [\<lparr>Sealed = True, Progress = 1\<rparr>, \<lparr>Sealed = True, Progress = 0\<rparr>] \<and>
   (\<exists>w'. Unseal reset_env prod_cfg stored_world = Some (Some ProgressResetError, w') \<and>
      read_keys (new_events stored_world w') = [''prod-unseal-0'', ''prod-unseal-1''] \<and>
      submitted_shares (new_events stored_world w') = [''k0'', ''k1''] \<and>
      length (new_events stored_world w') = 4 \<and>
      last (trace w') = VaultUnseal ''k1'' (Inr \<lparr>Sealed = True, Progress = 0\<rparr>))"
proof -
  let ?shares = "[''k0'', ''k1'']"
  let ?resps = "[\<lparr>Sealed = True, Progress = 1\<rparr>, \<lparr>Sealed = True, Progress = 0\<rparr>]"
  have h1: "?shares \<noteq> []" by simp
  have h2: "yields_shares reset_env prod_cfg stored_world ?shares"
    by (simp add: yields_shares_def All_less_Suc reset_env_def calm_env_def stored_world_def
        prod_keys)
  have h3: "vault_answers reset_env stored_world ?shares ?resps"
    by (simp add: vault_answers_def All_less_Suc reset_env_def calm_env_def stored_world_def
        now_def)
  have h4: "\<forall>j < length ?shares - 1. in_progress (?resps ! j)"
    by (simp add: All_less_Suc in_progress_def)
  have h5: "Sealed (last ?resps) \<and> Progress (last ?resps) = 0" by simp
  show ?thesis
    using h2 h3 Unseal_progress_reset [OF h1 h2 h3 h4 h5]
    by (simp add: prod_keys upt_rec)
qed

text \<open>
  C5. If the loop reaches an index (each earlier round read its share and was answered
  with \<open>Sealed\<close> and a progress other than \<open>0\<close>) and the read of that index fails, because
  the key is not found or for any other reason, then \<open>Unseal\<close> returns the error of that
  read at once: the failed read is the last call of the run, and the shares submitted are
  those of the earlier rounds only. When the index is \<open>0\<close>, nothing is submitted.
\<close>

theorem Unseal_fetch_failure:
  assumes "yields_shares E cfg w shares"
    and "vault_answers E w shares resps"
    and "\<forall>j < length shares. in_progress (resps ! j)"
    and "get_fault E (now w + 2 * length shares) (unsealKeyForID cfg (int (length shares))) \<noteq> None
         \<or> kv_data w (unsealKeyForID cfg (int (length shares))) = None"
  shows "\<exists>err w'. Unseal E cfg w =
             Some (Some (KeyRetrievalError (unsealKeyForID cfg (int (length shares))) err), w') \<and>
           submitted_shares (new_events w w') = shares \<and>
           read_keys (new_events w w') =
             map (\<lambda>j. unsealKeyForID cfg (int j)) [0 ..< Suc (length shares)] \<and>
           last (trace w') = KvGet (unsealKeyForID cfg (int (length shares))) (Inl err)"
proof -
  let ?k = "length shares"
  let ?key = "unsealKeyForID cfg (int ?k)"
  let ?wk = "w\<lparr>trace := trace w @ unseal_events cfg 0 shares resps\<rparr>"
  have len: "length resps = length shares"
    using assms(2) by (simp add: vault_answers_def)
  have rounds: "\<forall>j < length shares.
           get_fault E (now w + 2 * j) (unsealKeyForID cfg (0 + int j)) = None \<and>
           kv_data w (unsealKeyForID cfg (0 + int j)) = Some (shares ! j) \<and>
           unseal_result E (now w + 2 * j + 1) (shares ! j) = Inr (resps ! j) \<and>
           in_progress (resps ! j)"
    using assms(1-3) by (simp add: yields_shares_def vault_answers_def)
  have before: "Unseal E cfg w = unseal_loop E cfg (int ?k) ?wk"
    using unseal_loop_rounds [OF len rounds] by (simp add: Unseal_def)
  have nowk: "now ?wk = now w + 2 * ?k"
    using length_unseal_events [OF len, of cfg 0] by (simp add: now_def)
  obtain r w' where get: "keyStore_Get E ?key ?wk = (r, w')"
    by (cases "keyStore_Get E ?key ?wk")
  have w': "w' = record_event (KvGet ?key r) ?wk"
    using get by (rule keyStore_Get_world)
  have "fst (keyStore_Get E ?key ?wk) \<noteq> Inr v" for v
    using assms(4) unfolding nowk [symmetric]
    by (auto simp: keyStore_Get_def Let_def split: option.splits)
  with get obtain err where r: "r = Inl err"
    by (cases r) auto
  have run: "Unseal E cfg w = Some (Some (KeyRetrievalError ?key err), w')"
    unfolding before using get [unfolded r] by (rule unseal_loop_get_fails)
  have ev: "new_events w w' = unseal_events cfg 0 shares resps @ [KvGet ?key (Inl err)]"
    by (simp add: w' r new_events_def)
  have "submitted_shares (new_events w w') = shares"
    unfolding ev using submitted_shares_unseal_events [OF len, of cfg 0] by simp
  moreover have "read_keys (new_events w w') =
      map (\<lambda>j. unsealKeyForID cfg (int j)) [0 ..< Suc ?k]"
    unfolding ev using read_keys_unseal_events [OF len, of cfg 0] by simp
  moreover have "last (trace w') = KvGet ?key (Inl err)"
    by (simp add: w' r)
  ultimately show ?thesis
    using run by blast
qed

theorem Unseal_fetch_failure_witness:
  "yields_shares calm_env prod_cfg fresh_world [] \<and>
   vault_answers calm_env fresh_world [] [] \<and>
   kv_data fresh_world (unsealKeyForID prod_cfg 0) = None \<and>
   (\<exists>err w'. Unseal calm_env prod_cfg fresh_world =
        Some (Some (KeyRetrievalError ''prod-unseal-0'' err), w') \<and>
      submitted_shares (new_events fresh_world w') = [] \<and>
      read_keys (new_events fresh_world w') = [''prod-unseal-0''] \<and>
      last (trace w') = KvGet ''prod-unseal-0'' (Inl err))"
proof -
  have h1: "yields_shares calm_env prod_cfg fresh_world []"
    by (simp add: yields_shares_def)
  have h2: "vault_answers calm_env fresh_world [] []"
    by (simp add: vault_answers_def)
  have h3: "\<forall>j < length ([] :: string list). in_progress (([] :: SealStatusResponse list) ! j)"
    by simp
  have h4: "get_fault calm_env (now fresh_world + 2 * length ([] :: string list))
              (unsealKeyForID prod_cfg (int (length ([] :: string list)))) \<noteq> None
            \<or> kv_data fresh_world (unsealKeyForID prod_cfg (int (length ([] :: string list)))) = None"
    by (simp add: fresh_world_def)
  show ?thesis
    using h1 h2 Unseal_fetch_failure [OF h1 h2 h3 h4]
    by (simp add: prod_keys fresh_world_def) 
qed

section \<open>Claims about Init\<close>

text \<open>
  C1. After a successful \<open>Init\<close> the vault has been asked once, for \<open>SecretShares\<close> shares,
  and for every index \<open>j\<close> of its response the keystore holds the \<open>j\<close>-th returned share
  under the unseal key of \<open>j\<close>. The writes of \<open>Init\<close> are, in order, the unseal keys of the
  indices of the response, followed by the root key when the root token is stored: the
  indices of the unseal keys written are \<open>0, \<dots>, length (Keys resp) - 1\<close>, no other, and
  each of these keys holds its share. These are the indices \<open>0, \<dots>, SecretShares - 1\<close>
  when the vault returned as many shares as it was asked for.
\<close>

theorem Init_stores_shares:
  assumes "Init E cfg w = (None, w')"
  shows "\<exists>resp.
     VaultInit (SecretShares cfg) (SecretThreshold cfg) (Inr resp) \<in> set (new_events w w') \<and>
     init_requests (new_events w w') = [(SecretShares cfg, SecretThreshold cfg)] \<and>
     (\<forall>j < length (Keys resp). kv_data w' (unsealKeyForID cfg (int j)) = Some (Keys resp ! j)) \<and>
     written_keys (new_events w w') =
       map (\<lambda>j. unsealKeyForID cfg (int j)) [0 ..< length (Keys resp)] @
       (if StoreRootToken cfg then [rootTokenKey cfg] else []) \<and>
     {i. unsealKeyForID cfg i \<in> set (written_keys (new_events w w'))} =
       {0 ..< int (length (Keys resp))} \<and>
     (\<forall>i. 0 \<le> i \<and> i < int (length (Keys resp)) \<longrightarrow>
        kv_data w' (unsealKeyForID cfg i) = Some (Keys resp ! nat i)) \<and>
     (int (length (Keys resp)) = SecretShares cfg \<longrightarrow>
        {i. unsealKeyForID cfg i \<in> set (written_keys (new_events w w'))} = {0 ..< SecretShares cfg} \<and>
        (\<forall>i. 0 \<le> i \<and> i < SecretShares cfg \<longrightarrow>
           kv_data w' (unsealKeyForID cfg i) = Some (Keys resp ! nat i)))"
  using assms
proof (cases rule: Init_cases)
  case early
  then show ?thesis by auto
next
  case (vault_failed msg)
  then show ?thesis by simp
next
  case (answered resp w3)
  let ?n = "length (Keys resp)"
  note ev = Init_answered_new_events(2) [OF answered(1,6)]
  note ok = store_response_ok [OF answered(6)]
  have a: "VaultInit (SecretShares cfg) (SecretThreshold cfg) (Inr resp) \<in> set (new_events w w')"
    unfolding ev using answered(5) by simp
  have b: "init_requests (new_events w w') = [(SecretShares cfg, SecretThreshold cfg)]"
    unfolding ev using answered(4) store_response_no_init [OF answered(6)] by simp
  have d: "written_keys (new_events w w') =
       map (\<lambda>j. unsealKeyForID cfg (int j)) [0 ..< ?n] @
       (if StoreRootToken cfg then [rootTokenKey cfg] else [])"
    unfolding ev using answered(3) ok(2) by simp
  have e: "{i. unsealKeyForID cfg i \<in> set (written_keys (new_events w w'))} = {0 ..< int ?n}"
  proof -
    have "unsealKeyForID cfg i \<in> set (written_keys (new_events w w')) \<longleftrightarrow> 0 \<le> i \<and> i < int ?n"
      for i
      unfolding d using unseal_key_written_iff [of cfg i ?n] rootTokenKey_not_unseal [of cfg i]
      by (auto simp: lessThan_atLeast0)
    then show ?thesis by (simp add: set_eq_iff)
  qed
  have f: "kv_data w' (unsealKeyForID cfg i) = Some (Keys resp ! nat i)"
    if "0 \<le> i \<and> i < int ?n" for i
  proof -
    from that have "nat i < ?n" by (simp add: nat_less_iff)
    with ok(1) have "kv_data w' (unsealKeyForID cfg (int (nat i))) = Some (Keys resp ! nat i)"
      by blast
    with that show ?thesis by simp
  qed
  have f': "\<forall>i. 0 \<le> i \<and> i < int ?n \<longrightarrow>
        kv_data w' (unsealKeyForID cfg i) = Some (Keys resp ! nat i)"
    using f by blast
  have g: "int ?n = SecretShares cfg \<longrightarrow>
        {i. unsealKeyForID cfg i \<in> set (written_keys (new_events w w'))} = {0 ..< SecretShares cfg} \<and>
        (\<forall>i. 0 \<le> i \<and> i < SecretShares cfg \<longrightarrow>
           kv_data w' (unsealKeyForID cfg i) = Some (Keys resp ! nat i))"
  proof (intro impI conjI allI)
    assume eq: "int ?n = SecretShares cfg"
    show "{i. unsealKeyForID cfg i \<in> set (written_keys (new_events w w'))} = {0 ..< SecretShares cfg}"
      using e unfolding eq .
    fix i assume "0 \<le> i \<and> i < SecretShares cfg"
    then show "kv_data w' (unsealKeyForID cfg i) = Some (Keys resp ! nat i)"
      using f [of i] unfolding eq by simp
  qed
  show ?thesis
    by (rule exI [where x = resp]) (intro conjI a b ok(1) d e f' g)
qed

theorem Init_stores_shares_witness:
  "fst (Init calm_env prod_cfg fresh_world) = None \<and>
   kv_data (snd (Init calm_env prod_cfg fresh_world)) ''prod-unseal-0'' = Some ''k0'' \<and>
   kv_data (snd (Init calm_env prod_cfg fresh_world)) ''prod-unseal-4'' = Some ''k4'' \<and>
   (\<exists>resp.
     VaultInit 5 3 (Inr resp) \<in> set (new_events fresh_world (snd (Init calm_env prod_cfg fresh_world))) \<and>
     int (length (Keys resp)) = 5 \<and>
     {i. unsealKeyForID prod_cfg i
           \<in> set (written_keys (new_events fresh_world (snd (Init calm_env prod_cfg fresh_world))))}
       = {0 ..< 5} \<and>
     (\<forall>i. 0 \<le> i \<and> i < 5 \<longrightarrow>
        kv_data (snd (Init calm_env prod_cfg fresh_world)) (unsealKeyForID prod_cfg i) =
          Some (Keys resp ! nat i)))"
proof -
  let ?W = "snd (Init calm_env prod_cfg fresh_world)"
  have ok: "fst (Init calm_env prod_cfg fresh_world) = None"
    by code_simp
  then have run: "Init calm_env prod_cfg fresh_world = (None, ?W)"
    by (simp add: prod_eq_iff)
  have d0: "kv_data ?W ''prod-unseal-0'' = Some ''k0''" by code_simp
  have d4: "kv_data ?W ''prod-unseal-4'' = Some ''k4''" by code_simp
  have cfg: "SecretShares prod_cfg = 5" "SecretThreshold prod_cfg = 3"
    by (simp_all add: prod_cfg_def)
  from Init_stores_shares [OF run] obtain resp where
    r1: "VaultInit 5 3 (Inr resp) \<in> set (new_events fresh_world ?W)"
    and r2: "written_keys (new_events fresh_world ?W) =
       map (\<lambda>j. unsealKeyForID prod_cfg (int j)) [0 ..< length (Keys resp)] @
       (if StoreRootToken prod_cfg then [rootTokenKey prod_cfg] else [])"
    and r3: "int (length (Keys resp)) = 5 \<longrightarrow>
        {i. unsealKeyForID prod_cfg i \<in> set (written_keys (new_events fresh_world ?W))} = {0 ..< 5} \<and>
        (\<forall>i. 0 \<le> i \<and> i < 5 \<longrightarrow>
           kv_data ?W (unsealKeyForID prod_cfg i) = Some (Keys resp ! nat i))"
    unfolding cfg by blast
  have wk: "length (written_keys (new_events fresh_world ?W)) = 6"
    by code_simp
  have "length (Keys resp) = 5"
    using r2 wk by (simp add: prod_cfg_def)
  with r1 r3 ok d0 d4 show ?thesis
    by (intro conjI exI [where x = resp]) simp_all
qed

text \<open>
  The number of shares is the vault's: when it returns two shares for the five asked for,
  \<open>Init\<close> succeeds, writes the unseal keys of \<open>0\<close> and \<open>1\<close> only, and the keystore holds
  nothing under the unseal key of \<open>2\<close>, an index below \<open>SecretShares\<close>.
\<close>

theorem Init_stores_shares_counterexample:
  "SecretShares prod_cfg = 5 \<and>
   fst (Init short_env prod_cfg fresh_world) = None \<and>
   written_keys (new_events fresh_world (snd (Init short_env prod_cfg fresh_world))) =
     [''prod-unseal-0'', ''prod-unseal-1'', ''prod-root''] \<and>
   unsealKeyForID prod_cfg 2 = ''prod-unseal-2'' \<and>
   kv_data (snd (Init short_env prod_cfg fresh_world)) ''prod-unseal-2'' = None"
proof -
  have "SecretShares prod_cfg = 5"
    by (simp add: prod_cfg_def)
  moreover have "fst (Init short_env prod_cfg fresh_world) = None"
    by code_simp
  moreover have "written_keys (new_events fresh_world (snd (Init short_env prod_cfg fresh_world))) =
     [''prod-unseal-0'', ''prod-unseal-1'', ''prod-root'']"
    by code_simp
  moreover have "kv_data (snd (Init short_env prod_cfg fresh_world)) ''prod-unseal-2'' = None"
    by code_simp
  ultimately show ?thesis
    by (simp add: prod_keys)
qed

text \<open>
  C6. With \<open>OverwriteExisting = false\<close>, when the root key is present in the keystore (or
  its lookup fails otherwise than with not-found), \<open>Init\<close> returns an error and never
  sends the initialisation request to the vault, nor writes anything. If the probe of the
  keystore passes, the error is that of the existing root key.
\<close>

theorem Init_refuses_existing_root:
  assumes "\<not> OverwriteExisting cfg"
    and "kv_data w (rootTokenKey cfg) \<noteq> None \<or>
         get_fault E (Suc (now w)) (rootTokenKey cfg) \<noteq> None"
  shows "fst (Init E cfg w) \<noteq> None \<and>
     init_requests (new_events w (snd (Init E cfg w))) = [] \<and>
     written_keys (new_events w (snd (Init E cfg w))) = [] \<and>
     (test_result E (now w) (testKey cfg) = None \<longrightarrow>
        fst (Init E cfg w) = Some (PreexistingKeyError (rootTokenKey cfg)))"
proof (cases "test_result E (now w) (testKey cfg)")
  case (Some msg)
  then show ?thesis
    by (simp add: Init_def keyStore_Test_def Let_def new_events_def)
next
  case None
  have n: "0 < length (precheck_keys cfg)"
    by (simp add: precheck_keys_def)
  have before: "\<forall>j < 0. reports_absent E w (now w + 1 + j) (precheck_keys cfg ! j)"
    by simp
  have at: "\<not> reports_absent E w (now w + 1 + 0) (precheck_keys cfg ! 0)"
    using assms(2) by (auto simp: reports_absent_def precheck_keys_def)
  from precheck_stops_Init [OF assms(1) None n before at] obtain r where
    "Init E cfg w =
       (Some (PreexistingKeyError (precheck_keys cfg ! 0)),
        w\<lparr>trace := trace w @ KvTest (testKey cfg) None #
                     map (\<lambda>key. KvGet key (Inl NotFoundError)) (take 0 (precheck_keys cfg)) @
                     [KvGet (precheck_keys cfg ! 0) r]\<rparr>)"
    by blast
  then show ?thesis
    by (simp add: new_events_def precheck_keys_def)
qed

theorem Init_refuses_existing_root_witness:
  "\<not> OverwriteExisting prod_cfg \<and>
   kv_data stored_world (rootTokenKey prod_cfg) = Some ''tok'' \<and>
   fst (Init calm_env prod_cfg stored_world) = Some (PreexistingKeyError ''prod-root'') \<and>
   init_requests (new_events stored_world (snd (Init calm_env prod_cfg stored_world))) = [] \<and>
   written_keys (new_events stored_world (snd (Init calm_env prod_cfg stored_world))) = []"
proof -
  have h1: "\<not> OverwriteExisting prod_cfg"
    by (simp add: prod_cfg_def)
  have present: "kv_data stored_world (rootTokenKey prod_cfg) = Some ''tok''"
    by (simp add: stored_world_def prod_keys)
  then have h2: "kv_data stored_world (rootTokenKey prod_cfg) \<noteq> None \<or>
      get_fault calm_env (Suc (now stored_world)) (rootTokenKey prod_cfg) \<noteq> None"
    by simp
  have probe: "test_result calm_env (now stored_world) (testKey prod_cfg) = None"
    by (simp add: calm_env_def)
  show ?thesis
    using h1 present probe Init_refuses_existing_root [OF h1 h2]
    by (simp add: prod_keys)
qed

text \<open>
  C7. With \<open>OverwriteExisting = false\<close> and a keystore that passes the probe, the keys
  tested before the vault is asked are the root key and the unseal keys of
  \<open>0, \<dots>, SecretShares\<close>, the last index included: \<open>SecretShares + 1\<close> unseal keys. When
  the vault returns no more shares than it was asked for, the unseal keys that \<open>Init\<close>
  writes have their indices in \<open>0, \<dots>, SecretShares - 1\<close>: the unseal key of
  \<open>SecretShares\<close> is tested and never written, one unseal key more is tested than is
  ever written. If each tested key is reported absent, \<open>Init\<close> reads exactly these keys,
  in this order, and then sends the initialisation request. The first key that is present,
  or whose lookup fails otherwise than with not-found, aborts \<open>Init\<close> with the error naming
  it, after the reads up to this key, with no request to the vault and no write.
\<close>

theorem Init_precheck:
  assumes "\<not> OverwriteExisting cfg"
    and "test_result E (now w) (testKey cfg) = None"
  shows "precheck_keys cfg = rootTokenKey cfg # map (unsealKeyForID cfg) [0 .. SecretShares cfg] \<and>
     {i. unsealKeyForID cfg i \<in> set (precheck_keys cfg)} = {0 .. SecretShares cfg} \<and>
     (0 \<le> SecretShares cfg \<longrightarrow>
        length (precheck_keys cfg) = nat (SecretShares cfg) + 2 \<and>
        last (precheck_keys cfg) = unsealKeyForID cfg (SecretShares cfg)) \<and>
     ((\<forall>resp \<in> set (init_answers (new_events w (snd (Init E cfg w)))).
          int (length (Keys resp)) \<le> SecretShares cfg) \<longrightarrow>
        {i. unsealKeyForID cfg i \<in> set (written_keys (new_events w (snd (Init E cfg w))))}
          \<subseteq> {0 ..< SecretShares cfg} \<and>
        unsealKeyForID cfg (SecretShares cfg)
          \<notin> set (written_keys (new_events w (snd (Init E cfg w))))) \<and>
     ((\<forall>j < length (precheck_keys cfg).
          reports_absent E w (now w + 1 + j) (precheck_keys cfg ! j)) \<longrightarrow>
        (\<exists>rest. new_events w (snd (Init E cfg w)) =
           KvTest (testKey cfg) None #
           map (\<lambda>key. KvGet key (Inl NotFoundError)) (precheck_keys cfg) @
           VaultInit (SecretShares cfg) (SecretThreshold cfg)
             (init_result E (now w + 1 + length (precheck_keys cfg))
                (SecretShares cfg) (SecretThreshold cfg)) # rest)) \<and>
     (\<forall>n < length (precheck_keys cfg).
        (\<forall>j < n. reports_absent E w (now w + 1 + j) (precheck_keys cfg ! j)) \<and>
        \<not> reports_absent E w (now w + 1 + n) (precheck_keys cfg ! n) \<longrightarrow>
        fst (Init E cfg w) = Some (PreexistingKeyError (precheck_keys cfg ! n)) \<and>
        read_keys (new_events w (snd (Init E cfg w))) = take (Suc n) (precheck_keys cfg) \<and>
        init_requests (new_events w (snd (Init E cfg w))) = [] \<and>
        written_keys (new_events w (snd (Init E cfg w))) = [])"
proof (intro conjI impI allI)
  show "precheck_keys cfg = rootTokenKey cfg # map (unsealKeyForID cfg) [0 .. SecretShares cfg]"
    by (simp add: precheck_keys_def)
next
  show "{i. unsealKeyForID cfg i \<in> set (precheck_keys cfg)} = {0 .. SecretShares cfg}"
    by (rule precheck_indices)
next
  assume "0 \<le> SecretShares cfg"
  then show "length (precheck_keys cfg) = nat (SecretShares cfg) + 2"
    by (simp add: precheck_keys_def)
next
  assume s: "0 \<le> SecretShares cfg"
  then have "[0 .. SecretShares cfg] = [0 .. SecretShares cfg - 1] @ [SecretShares cfg]"
    by (simp add: upto_rec2)
  then show "last (precheck_keys cfg) = unsealKeyForID cfg (SecretShares cfg)"
    by (simp add: precheck_keys_def)
next
  assume small: "\<forall>resp \<in> set (init_answers (new_events w (snd (Init E cfg w)))).
      int (length (Keys resp)) \<le> SecretShares cfg"
  have run: "Init E cfg w = (fst (Init E cfg w), snd (Init E cfg w))"
    by simp
  have below: "0 \<le> i \<and> i < SecretShares cfg"
    if "unsealKeyForID cfg i \<in> set (written_keys (new_events w (snd (Init E cfg w))))" for i
    using Init_written_indices [OF run that] small by fastforce
  from below
  show "{i. unsealKeyForID cfg i \<in> set (written_keys (new_events w (snd (Init E cfg w))))}
      \<subseteq> {0 ..< SecretShares cfg}"
    by auto
  from below [of "SecretShares cfg"]
  show "unsealKeyForID cfg (SecretShares cfg)
      \<notin> set (written_keys (new_events w (snd (Init E cfg w))))"
    by auto
next
  assume "\<forall>j < length (precheck_keys cfg).
      reports_absent E w (now w + 1 + j) (precheck_keys cfg ! j)"
  with assms show "\<exists>rest. new_events w (snd (Init E cfg w)) =
           KvTest (testKey cfg) None #
           map (\<lambda>key. KvGet key (Inl NotFoundError)) (precheck_keys cfg) @
           VaultInit (SecretShares cfg) (SecretThreshold cfg)
             (init_result E (now w + 1 + length (precheck_keys cfg))
                (SecretShares cfg) (SecretThreshold cfg)) # rest"
    by (rule precheck_lets_Init_go)
next
  fix n
  assume n: "n < length (precheck_keys cfg)"
    and h: "(\<forall>j < n. reports_absent E w (now w + 1 + j) (precheck_keys cfg ! j)) \<and>
        \<not> reports_absent E w (now w + 1 + n) (precheck_keys cfg ! n)"
  from precheck_stops_Init [OF assms n] h obtain r where
    run: "Init E cfg w =
       (Some (PreexistingKeyError (precheck_keys cfg ! n)),
        w\<lparr>trace := trace w @ KvTest (testKey cfg) None #
                     map (\<lambda>key. KvGet key (Inl NotFoundError)) (take n (precheck_keys cfg)) @
                     [KvGet (precheck_keys cfg ! n) r]\<rparr>)"
    by blast
  have rk: "read_keys (map (\<lambda>key. KvGet key (Inl NotFoundError)) ks) = ks" for ks
    by (induction ks) simp_all
  have wk: "written_keys (map (\<lambda>key. KvGet key (Inl NotFoundError)) ks) = []" for ks
    by (induction ks) simp_all
  have ir: "init_requests (map (\<lambda>key. KvGet key (Inl NotFoundError)) ks) = []" for ks
    by (induction ks) simp_all
  show "fst (Init E cfg w) = Some (PreexistingKeyError (precheck_keys cfg ! n))"
    using run by simp
  show "read_keys (new_events w (snd (Init E cfg w))) = take (Suc n) (precheck_keys cfg)"
    using run n by (simp add: new_events_def rk take_Suc_conv_app_nth)
  show "init_requests (new_events w (snd (Init E cfg w))) = []"
    using run by (simp add: new_events_def ir)
  show "written_keys (new_events w (snd (Init E cfg w))) = []"
    using run by (simp add: new_events_def wk)
qed

theorem Init_precheck_witness:
  "\<not> OverwriteExisting prod_cfg \<and>
   test_result calm_env (now leftover_world) (testKey prod_cfg) = None \<and>
   precheck_keys prod_cfg =
     [''prod-root'', ''prod-unseal-0'', ''prod-unseal-1'', ''prod-unseal-2'',
      ''prod-unseal-3'', ''prod-unseal-4'', ''prod-unseal-5''] \<and>
   reports_absent calm_env fresh_world 7 ''prod-unseal-5'' \<and>
   (\<exists>rest. new_events fresh_world (snd (Init calm_env prod_cfg fresh_world)) =
      KvTest ''prod-test'' None #
      map (\<lambda>key. KvGet key (Inl NotFoundError))
        [''prod-root'', ''prod-unseal-0'', ''prod-unseal-1'', ''prod-unseal-2'',
         ''prod-unseal-3'', ''prod-unseal-4'', ''prod-unseal-5''] @
      VaultInit 5 3 (init_result calm_env 8 5 3) # rest) \<and>
   init_answers (new_events fresh_world (snd (Init calm_env prod_cfg fresh_world))) = [calm_resp] \<and>
   length (Keys calm_resp) = 5 \<and>
   {i. unsealKeyForID prod_cfg i
         \<in> set (written_keys (new_events fresh_world (snd (Init calm_env prod_cfg fresh_world))))}
     \<subseteq> {0 ..< 5} \<and>
   ''prod-unseal-5''
     \<notin> set (written_keys (new_events fresh_world (snd (Init calm_env prod_cfg fresh_world)))) \<and>
   \<not> reports_absent calm_env leftover_world 7 ''prod-unseal-5'' \<and>
   fst (Init calm_env prod_cfg leftover_world) = Some (PreexistingKeyError ''prod-unseal-5'') \<and>
   read_keys (new_events leftover_world (snd (Init calm_env prod_cfg leftover_world))) =
     [''prod-root'', ''prod-unseal-0'', ''prod-unseal-1'', ''prod-unseal-2'',
      ''prod-unseal-3'', ''prod-unseal-4'', ''prod-unseal-5''] \<and>
   init_requests (new_events leftover_world (snd (Init calm_env prod_cfg leftover_world))) = []"
proof -
  let ?pk = "precheck_keys prod_cfg"
  let ?W = "snd (Init calm_env prod_cfg fresh_world)"
  have h1: "\<not> OverwriteExisting prod_cfg"
    by (simp add: prod_cfg_def)
  have h2: "test_result calm_env (now w) (testKey prod_cfg) = None" for w
    by (simp add: calm_env_def)
  have len: "length ?pk = 7"
    by (simp add: prod_precheck_keys)
  have cfg: "SecretShares prod_cfg = 5" "SecretThreshold prod_cfg = 3"
    by (simp_all add: prod_cfg_def)
  have fresh: "\<forall>j < length ?pk. reports_absent calm_env fresh_world (now fresh_world + 1 + j) (?pk ! j)"
    by (simp add: prod_precheck_keys All_less_Suc reports_absent_def calm_env_def fresh_world_def)
  have before: "\<forall>j < 6. reports_absent calm_env leftover_world (now leftover_world + 1 + j) (?pk ! j)"
    by (simp add: prod_precheck_keys All_less_Suc reports_absent_def calm_env_def
        leftover_world_def eval_nat_numeral)
  have at: "\<not> reports_absent calm_env leftover_world (now leftover_world + 1 + 6) (?pk ! 6)"
    by (simp add: prod_precheck_keys reports_absent_def leftover_world_def)
  have n: "6 < length ?pk"
    by (simp add: len)
  have now0: "now fresh_world = 0" "now leftover_world = 0"
    by (simp_all add: now_def fresh_world_def leftover_world_def)
  have ia: "init_answers (new_events fresh_world ?W) = [calm_resp]"
    by code_simp
  have five: "length (Keys calm_resp) = 5"
    by (simp add: calm_resp_def)
  have small: "\<forall>resp \<in> set (init_answers (new_events fresh_world ?W)).
      int (length (Keys resp)) \<le> SecretShares prod_cfg"
    unfolding ia by (simp add: five cfg)
  note thm1 = Init_precheck [OF h1 h2, of fresh_world]
  note thm2 = Init_precheck [OF h1 h2, of leftover_world]
  from thm1 fresh have pass: "\<exists>rest. new_events fresh_world (snd (Init calm_env prod_cfg fresh_world)) =
      KvTest (testKey prod_cfg) None #
      map (\<lambda>key. KvGet key (Inl NotFoundError)) ?pk @
      VaultInit (SecretShares prod_cfg) (SecretThreshold prod_cfg)
        (init_result calm_env (now fresh_world + 1 + length ?pk)
           (SecretShares prod_cfg) (SecretThreshold prod_cfg)) # rest"
    by blast
  note wr = thm1 [THEN conjunct2, THEN conjunct2, THEN conjunct2, THEN conjunct1, THEN mp,
      OF small, unfolded cfg prod_keys]
  from thm2 n before at
  have stop: "fst (Init calm_env prod_cfg leftover_world) = Some (PreexistingKeyError (?pk ! 6)) \<and>
        read_keys (new_events leftover_world (snd (Init calm_env prod_cfg leftover_world))) =
          take (Suc 6) ?pk \<and>
        init_requests (new_events leftover_world (snd (Init calm_env prod_cfg leftover_world))) = []"
    by blast
  have a7: "reports_absent calm_env fresh_world 7 ''prod-unseal-5''"
    by (simp add: reports_absent_def calm_env_def fresh_world_def)
  have b7: "\<not> reports_absent calm_env leftover_world 7 ''prod-unseal-5''"
    by (simp add: reports_absent_def leftover_world_def)
  have eight: "now fresh_world + 1 + length ?pk = 8"
    by (simp add: now0 len)
  have tk: "take (Suc 6) ?pk = ?pk"
    by (simp add: len)
  note pass' = pass [unfolded eight cfg prod_keys, unfolded prod_precheck_keys]
  note stop' = stop [unfolded tk, unfolded prod_precheck_keys, simplified]
  have h2': "test_result calm_env (now leftover_world) (testKey prod_cfg) = None"
    by (rule h2)
  from h1 h2' prod_precheck_keys a7 pass' ia five wr b7 stop' show ?thesis
    by (intro conjI) simp_all
qed

text \<open>
  The unseal key of \<open>SecretShares\<close> is written when the vault returns more shares than it
  was asked for: with seven shares for the five asked for, \<open>Init\<close> succeeds and writes
  the unseal keys of \<open>0, \<dots>, 6\<close>, one more than the six it tested.
\<close>

theorem Init_precheck_counterexample:
  "\<not> OverwriteExisting prod_cfg \<and>
   SecretShares prod_cfg = 5 \<and>
   precheck_keys prod_cfg =
     [''prod-root'', ''prod-unseal-0'', ''prod-unseal-1'', ''prod-unseal-2'',
      ''prod-unseal-3'', ''prod-unseal-4'', ''prod-unseal-5''] \<and>
   fst (Init long_env prod_cfg fresh_world) = None \<and>
   written_keys (new_events fresh_world (snd (Init long_env prod_cfg fresh_world))) =
     [''prod-unseal-0'', ''prod-unseal-1'', ''prod-unseal-2'', ''prod-unseal-3'',
      ''prod-unseal-4'', ''prod-unseal-5'', ''prod-unseal-6'', ''prod-root''] \<and>
   kv_data (snd (Init long_env prod_cfg fresh_world)) ''prod-unseal-5'' = Some ''k5''"
proof -
  have "\<not> OverwriteExisting prod_cfg" "SecretShares prod_cfg = 5"
    by (simp_all add: prod_cfg_def)
  moreover have "fst (Init long_env prod_cfg fresh_world) = None"
    by code_simp
  moreover have "written_keys (new_events fresh_world (snd (Init long_env prod_cfg fresh_world))) =
     [''prod-unseal-0'', ''prod-unseal-1'', ''prod-unseal-2'', ''prod-unseal-3'',
      ''prod-unseal-4'', ''prod-unseal-5'', ''prod-unseal-6'', ''prod-root'']"
    by code_simp
  moreover have "kv_data (snd (Init long_env prod_cfg fresh_world)) ''prod-unseal-5'' = Some ''k5''"
    by code_simp
  ultimately show ?thesis
    by (simp add: prod_precheck_keys)
qed

text \<open>
  C8. Let \<open>Init\<close> have passed the probe and the test for existing keys, and let the vault
  have answered with \<open>resp\<close>. If the writes of the shares of the indices below \<open>j\<close>
  succeed and the write of the share of index \<open>j\<close> fails (the \<^verbatim>\<open>Set\<close> fails, or
  the guarding read refuses it), then \<open>Init\<close> returns the error of this share, in the world
  that the failed write left: the keystore is as it was before the failed write, and every
  share of an index below \<open>j\<close> is still held under its key. If all the shares are
  written and the write of the root token fails, \<open>Init\<close> returns the error of the root
  token and every share of the response is still held under its key. Nothing is rolled
  back.
\<close>

theorem Init_no_rollback:
  assumes "keyStore_Test E (testKey cfg) w = (None, w1)"
    and "(if \<not> OverwriteExisting cfg then test_keys E (precheck_keys cfg) w1 else (None, w1)) =
           (None, w2)"
    and "vault_Init E (SecretShares cfg) (SecretThreshold cfg) w2 = (Inr resp, w3)"
  shows "(j < length (Keys resp) \<and>
          store_keys E cfg 0 (take j (Keys resp)) w3 = (None, w4) \<and>
          keyStoreSet E cfg (unsealKeyForID cfg (int j)) (Keys resp ! j) w4 = (Some e, w5) \<longrightarrow>
            Init E cfg w = (Some (KeyPersistError (unsealKeyForID cfg (int j)) e), w5) \<and>
            kv_data w5 = kv_data w4 \<and>
            (\<forall>i < j. kv_data w5 (unsealKeyForID cfg (int i)) = Some (Keys resp ! i))) \<and>
         (StoreRootToken cfg \<and>
          store_keys E cfg 0 (Keys resp) w3 = (None, w4) \<and>
          keyStoreSet E cfg (rootTokenKey cfg) (RootToken resp) w4 = (Some e, w5) \<longrightarrow>
            Init E cfg w = (Some (RootPersistError (RootToken resp) (rootTokenKey cfg)), w5) \<and>
            kv_data w5 = kv_data w4 \<and>
            (\<forall>i < length (Keys resp).
               kv_data w5 (unsealKeyForID cfg (int i)) = Some (Keys resp ! i)))"
proof (intro conjI impI)
  assume h: "j < length (Keys resp) \<and>
          store_keys E cfg 0 (take j (Keys resp)) w3 = (None, w4) \<and>
          keyStoreSet E cfg (unsealKeyForID cfg (int j)) (Keys resp ! j) w4 = (Some e, w5)"
  then have j: "j < length (Keys resp)"
    and before: "store_keys E cfg 0 (take j (Keys resp)) w3 = (None, w4)"
    and at: "keyStoreSet E cfg (unsealKeyForID cfg (0 + int j)) (Keys resp ! j) w4 = (Some e, w5)"
    by simp_all
  from store_keys_fails_at [OF j before at]
  have "store_response E cfg resp w3 = (Some (KeyPersistError (unsealKeyForID cfg (int j)) e), w5)"
    by (simp add: store_response_def)
  then show "Init E cfg w = (Some (KeyPersistError (unsealKeyForID cfg (int j)) e), w5)"
    by (simp only: Init_answered [OF assms])
  show same: "kv_data w5 = kv_data w4"
    using keyStoreSet_failed [OF at] by simp
  show "\<forall>i < j. kv_data w5 (unsealKeyForID cfg (int i)) = Some (Keys resp ! i)"
  proof (intro allI impI)
    fix i assume i: "i < j"
    with j have "i < length (take j (Keys resp))" by simp
    from store_keys_ok_data [OF before this] i
    show "kv_data w5 (unsealKeyForID cfg (int i)) = Some (Keys resp ! i)"
      unfolding same by simp
  qed
next
  assume h: "StoreRootToken cfg \<and>
          store_keys E cfg 0 (Keys resp) w3 = (None, w4) \<and>
          keyStoreSet E cfg (rootTokenKey cfg) (RootToken resp) w4 = (Some e, w5)"
  then have root: "StoreRootToken cfg"
    and shares: "store_keys E cfg 0 (Keys resp) w3 = (None, w4)"
    and at: "keyStoreSet E cfg (rootTokenKey cfg) (RootToken resp) w4 = (Some e, w5)"
    by simp_all
  have "store_response E cfg resp w3 =
      (Some (RootPersistError (RootToken resp) (rootTokenKey cfg)), w5)"
    using root shares at by (simp add: store_response_def)
  then show "Init E cfg w = (Some (RootPersistError (RootToken resp) (rootTokenKey cfg)), w5)"
    by (simp only: Init_answered [OF assms])
  show same: "kv_data w5 = kv_data w4"
    using keyStoreSet_failed [OF at] by simp
  show "\<forall>i < length (Keys resp). kv_data w5 (unsealKeyForID cfg (int i)) = Some (Keys resp ! i)"
  proof (intro allI impI)
    fix i assume "i < length (Keys resp)"
    from store_keys_ok_data [OF shares this]
    show "kv_data w5 (unsealKeyForID cfg (int i)) = Some (Keys resp ! i)"
      unfolding same by simp
  qed
qed

theorem Init_no_rollback_witness:
  "fst (store_keys share_fault_env prod_cfg 0 [''k0'', ''k1''] (answered_world share_fault_env)) =
     None \<and>
   fst (keyStoreSet share_fault_env prod_cfg ''prod-unseal-2'' ''k2''
          (snd (store_keys share_fault_env prod_cfg 0 [''k0'', ''k1'']
                  (answered_world share_fault_env)))) = Some (KeyStoreError ''denied'') \<and>
   fst (Init share_fault_env prod_cfg fresh_world) =
     Some (KeyPersistError ''prod-unseal-2'' (KeyStoreError ''denied'')) \<and>
   kv_data (snd (Init share_fault_env prod_cfg fresh_world)) ''prod-unseal-0'' = Some ''k0'' \<and>
   kv_data (snd (Init share_fault_env prod_cfg fresh_world)) ''prod-unseal-1'' = Some ''k1'' \<and>
   fst (store_keys root_fault_env prod_cfg 0 [''k0'', ''k1'', ''k2'', ''k3'', ''k4'']
          (answered_world root_fault_env)) = None \<and>
   fst (keyStoreSet root_fault_env prod_cfg ''prod-root'' ''tok''
          (snd (store_keys root_fault_env prod_cfg 0 [''k0'', ''k1'', ''k2'', ''k3'', ''k4'']
                  (answered_world root_fault_env)))) = Some (KeyStoreError ''denied'') \<and>
   fst (Init root_fault_env prod_cfg fresh_world) = Some (RootPersistError ''tok'' ''prod-root'') \<and>
   kv_data (snd (Init root_fault_env prod_cfg fresh_world)) ''prod-unseal-0'' = Some ''k0'' \<and>
   kv_data (snd (Init root_fault_env prod_cfg fresh_world)) ''prod-unseal-4'' = Some ''k4''"
proof -
  let ?E = share_fault_env and ?F = root_fault_env
  let ?S = "SecretShares prod_cfg" and ?T = "SecretThreshold prod_cfg"
  define V4 where "V4 = snd (store_keys ?E prod_cfg 0 [''k0'', ''k1''] (answered_world ?E))"
  define V5 where "V5 = snd (keyStoreSet ?E prod_cfg ''prod-unseal-2'' ''k2'' V4)"
  define W4 where "W4 = snd (store_keys ?F prod_cfg 0 [''k0'', ''k1'', ''k2'', ''k3'', ''k4'']
                               (answered_world ?F))"
  define W5 where "W5 = snd (keyStoreSet ?F prod_cfg ''prod-root'' ''tok'' W4)"
  have no: "\<not> OverwriteExisting prod_cfg" and root: "StoreRootToken prod_cfg"
    by (simp_all add: prod_cfg_def)
  have resp: "Keys calm_resp = [''k0'', ''k1'', ''k2'', ''k3'', ''k4'']" "RootToken calm_resp = ''tok''"
    by (simp_all add: calm_resp_def)
  have two: "take 2 (Keys calm_resp) = [''k0'', ''k1'']" "Keys calm_resp ! 2 = ''k2''"
    "unsealKeyForID prod_cfg (int 2) = ''prod-unseal-2''"
    and j: "2 < length (Keys calm_resp)"
    by (simp_all add: resp prod_keys)

  have e1: "fst (keyStore_Test ?E (testKey prod_cfg) fresh_world) = None"
    by code_simp
  have e2: "fst (test_keys ?E (precheck_keys prod_cfg) (probed_world ?E)) = None"
    by code_simp
  have e3: "fst (vault_Init ?E ?S ?T (tested_world ?E)) = Inr calm_resp"
    by code_simp
  have e4: "fst (store_keys ?E prod_cfg 0 [''k0'', ''k1''] (answered_world ?E)) = None"
    by code_simp
  have e5: "fst (keyStoreSet ?E prod_cfg ''prod-unseal-2'' ''k2'' V4) =
      Some (KeyStoreError ''denied'')"
    unfolding V4_def by code_simp
  have h1: "keyStore_Test ?E (testKey prod_cfg) fresh_world = (None, probed_world ?E)"
    using e1 by (simp add: prod_eq_iff probed_world_def)
  have h2: "(if \<not> OverwriteExisting prod_cfg
             then test_keys ?E (precheck_keys prod_cfg) (probed_world ?E)
             else (None, probed_world ?E)) = (None, tested_world ?E)"
    using no e2 by (simp add: prod_eq_iff tested_world_def)
  have h3: "vault_Init ?E ?S ?T (tested_world ?E) = (Inr calm_resp, answered_world ?E)"
    using e3 by (simp add: prod_eq_iff answered_world_def)
  have h4: "store_keys ?E prod_cfg 0 (take 2 (Keys calm_resp)) (answered_world ?E) = (None, V4)"
    unfolding two using e4 by (simp only: prod_eq_iff fst_conv snd_conv V4_def simp_thms)
  have h5: "keyStoreSet ?E prod_cfg (unsealKeyForID prod_cfg (int 2)) (Keys calm_resp ! 2) V4 =
      (Some (KeyStoreError ''denied''), V5)"
    unfolding two using e5 by (simp only: prod_eq_iff fst_conv snd_conv V5_def simp_thms)
  note share = Init_no_rollback [OF h1 h2 h3, where j = 2 and ?w4.0 = V4
      and e = "KeyStoreError ''denied''" and ?w5.0 = V5, THEN conjunct1, THEN mp,
      OF conjI [OF j conjI [OF h4 h5]], unfolded two]
  from share [THEN conjunct1] have s1: "fst (Init ?E prod_cfg fresh_world) =
      Some (KeyPersistError ''prod-unseal-2'' (KeyStoreError ''denied''))"
    and s2: "snd (Init ?E prod_cfg fresh_world) = V5"
    by simp_all
  note s3 = share [THEN conjunct2, THEN conjunct2]
  from s3 [THEN spec, of 0] s3 [THEN spec, of 1]
  have s4: "kv_data V5 ''prod-unseal-0'' = Some ''k0''" "kv_data V5 ''prod-unseal-1'' = Some ''k1''"
    by (simp_all add: resp prod_keys)

  have f1: "fst (keyStore_Test ?F (testKey prod_cfg) fresh_world) = None"
    by code_simp
  have f2: "fst (test_keys ?F (precheck_keys prod_cfg) (probed_world ?F)) = None"
    by code_simp
  have f3: "fst (vault_Init ?F ?S ?T (tested_world ?F)) = Inr calm_resp"
    by code_simp
  have f4: "fst (store_keys ?F prod_cfg 0 [''k0'', ''k1'', ''k2'', ''k3'', ''k4'']
                   (answered_world ?F)) = None"
    by code_simp
  have f5: "fst (keyStoreSet ?F prod_cfg ''prod-root'' ''tok'' W4) =
      Some (KeyStoreError ''denied'')"
    unfolding W4_def by code_simp
  have g1: "keyStore_Test ?F (testKey prod_cfg) fresh_world = (None, probed_world ?F)"
    using f1 by (simp add: prod_eq_iff probed_world_def)
  have g2: "(if \<not> OverwriteExisting prod_cfg
             then test_keys ?F (precheck_keys prod_cfg) (probed_world ?F)
             else (None, probed_world ?F)) = (None, tested_world ?F)"
    using no f2 by (simp add: prod_eq_iff tested_world_def)
  have g3: "vault_Init ?F ?S ?T (tested_world ?F) = (Inr calm_resp, answered_world ?F)"
    using f3 by (simp add: prod_eq_iff answered_world_def)
  have g4: "store_keys ?F prod_cfg 0 (Keys calm_resp) (answered_world ?F) = (None, W4)"
    unfolding resp using f4 by (simp only: prod_eq_iff fst_conv snd_conv W4_def simp_thms)
  have g5: "keyStoreSet ?F prod_cfg (rootTokenKey prod_cfg) (RootToken calm_resp) W4 =
      (Some (KeyStoreError ''denied''), W5)"
    unfolding resp prod_keys using f5 by (simp only: prod_eq_iff fst_conv snd_conv W5_def simp_thms)
  note token = Init_no_rollback [OF g1 g2 g3, where ?w4.0 = W4
      and e = "KeyStoreError ''denied''" and ?w5.0 = W5, THEN conjunct2, THEN mp,
      OF conjI [OF root conjI [OF g4 g5]]]
  from token [THEN conjunct1] have r1: "fst (Init ?F prod_cfg fresh_world) =
      Some (RootPersistError ''tok'' ''prod-root'')"
    and r2: "snd (Init ?F prod_cfg fresh_world) = W5"
    by (simp_all add: resp prod_keys)
  note r3 = token [THEN conjunct2, THEN conjunct2]
  from r3 [THEN spec, of 0] r3 [THEN spec, of 4]
  have r4: "kv_data W5 ''prod-unseal-0'' = Some ''k0''" "kv_data W5 ''prod-unseal-4'' = Some ''k4''"
    by (simp_all add: resp prod_keys)
  from e4 e5 s1 s4 f4 f5 r1 r4 show ?thesis
    unfolding s2 r2 V5_def W5_def V4_def W4_def by (intro conjI)
qed

text \<open>
  C9. With \<open>StoreRootToken = false\<close>, no run of \<open>Init\<close> issues a write to the root key,
  whatever \<open>OverwriteExisting\<close> is and whatever the keystore and the vault answer. Hence
  the root key is written only when \<open>StoreRootToken\<close> is true.
\<close>

theorem Init_root_token_not_stored:
  assumes "\<not> StoreRootToken cfg"
  shows "rootTokenKey cfg \<notin> set (written_keys (new_events w (snd (Init E cfg w))))"
proof -
  obtain err w' where run: "Init E cfg w = (err, w')"
    by (cases "Init E cfg w")
  from run have "rootTokenKey cfg \<notin> set (written_keys (new_events w w'))"
  proof (cases rule: Init_cases)
    case early
    then show ?thesis by simp
  next
    case (vault_failed msg)
    then show ?thesis by simp
  next
    case (answered resp w3)
    show ?thesis
      unfolding Init_answered_new_events(2) [OF answered(1,6)]
      using answered(3) store_response_no_root [OF answered(6) assms] by simp
  qed
  with run show ?thesis by simp
qed

theorem Init_root_token_not_stored_witness:
  "\<not> StoreRootToken (prod_cfg\<lparr>StoreRootToken := False\<rparr>) \<and>
   fst (Init calm_env (prod_cfg\<lparr>StoreRootToken := False\<rparr>) fresh_world) = None \<and>
   ''prod-root'' \<notin> set (written_keys (new_events fresh_world
      (snd (Init calm_env (prod_cfg\<lparr>StoreRootToken := False\<rparr>) fresh_world)))) \<and>
   kv_data (snd (Init calm_env (prod_cfg\<lparr>StoreRootToken := False\<rparr>) fresh_world)) ''prod-root'' = None"
proof -
  let ?cfg = "prod_cfg\<lparr>StoreRootToken := False\<rparr>"
  have h: "\<not> StoreRootToken ?cfg" by simp
  have key: "rootTokenKey ?cfg = ''prod-root''"
    by code_simp
  have ok: "fst (Init calm_env ?cfg fresh_world) = None"
    by code_simp
  have none: "kv_data (snd (Init calm_env ?cfg fresh_world)) ''prod-root'' = None"
    by code_simp
  show ?thesis
    using Init_root_token_not_stored [OF h, of fresh_world calm_env] ok none
    unfolding key by simp
qed



end
